theory Spec2Isabelle
  imports Main "HOL-Library.Word"
begin

unbundle bit_operations_syntax

section \<open>Data model of the washer controller\<close>

text \<open>
  The controller runs on an Arduino Mega (AVR): \<^verbatim>\<open>unsigned long\<close> is 32 bits wide and
  \<^verbatim>\<open>uint8_t\<close> is 8 bits wide. The static variables of \<^verbatim>\<open>washer_fsm.ino\<close> become the
  fields of one record, which every function takes and returns. The digital output pins
  are part of the state: \<open>pins s p\<close> is the level last written to pin \<open>p\<close>
  (\<open>True\<close> is \<^verbatim>\<open>HIGH\<close>). The four text lines last painted on the display are kept in
  \<open>lcd\<close>.

  The clock is an input. \<^verbatim>\<open>millis()\<close> and \<^verbatim>\<open>micros()\<close> are read several times
  during one pass of \<^verbatim>\<open>loop()\<close>; the model gives every read inside one pass the same
  value (\<open>nowMs\<close>, \<open>nowUs\<close> of the pass's input).
\<close>

type_synonym u8 = "8 word"
type_synonym u32 = "32 word"

datatype StepperMode = STEPPER_STOP | STEPPER_CW | STEPPER_CCW

datatype WashingState = IDLE | FILLING | WASHING | RINSING | SPINNING | DRAINING | FINISHED

record washer =
  stepperMode :: StepperMode
  stepIndex :: u8
  stepIntervalUs :: u32
  lastStepUs :: u32
  currentState :: WashingState
  stateStartMs :: u32
  washPhaseStartMs :: u32
  washForward :: bool
  lastLcdMs :: u32
  prevStartRaw :: bool
  lastStartChangeMs :: u32
  startPressedEvent :: bool
  stablePressed :: bool
  safeScreenShown :: bool
  pins :: "nat \<Rightarrow> bool"
  lcd :: "string list"

abbreviation (input) HIGH :: bool where "HIGH \<equiv> True"
abbreviation (input) LOW :: bool where "LOW \<equiv> False"

subsection \<open>Constants of \<^verbatim>\<open>pins.h\<close> and \<^verbatim>\<open>washer_fsm.ino\<close>\<close>

definition colPins :: "nat list" where "colPins = [30, 31, 32, 33]"
definition START_ROW :: nat where "START_ROW = 0"
definition START_COL :: nat where "START_COL = 0"
definition LED_YELLOW :: nat where "LED_YELLOW = 39"
definition LED_RED :: nat where "LED_RED = 40"
definition RELAY_INLET :: nat where "RELAY_INLET = 5"
definition RELAY_DRAIN :: nat where "RELAY_DRAIN = 4"
definition IN1_PIN :: nat where "IN1_PIN = 9"
definition IN2_PIN :: nat where "IN2_PIN = 10"
definition IN3_PIN :: nat where "IN3_PIN = 11"
definition IN4_PIN :: nat where "IN4_PIN = 12"

definition FILL_MS :: u32 where "FILL_MS = 5000"
definition WASH_MS :: u32 where "WASH_MS = 12000"
definition RINSE_MS :: u32 where "RINSE_MS = 7000"
definition SPIN_MS :: u32 where "SPIN_MS = 5000"
definition DRAIN_MS :: u32 where "DRAIN_MS = 5000"
definition FINISH_MS :: u32 where "FINISH_MS = 4000"
definition WASH_FORWARD_MS :: u32 where "WASH_FORWARD_MS = 3000"
definition WASH_REVERSE_MS :: u32 where "WASH_REVERSE_MS = 3000"
definition LCD_REFRESH_MS :: u32 where "LCD_REFRESH_MS = 200"
definition DEBOUNCE_MS :: u32 where "DEBOUNCE_MS = 150"

definition stepSeq :: "bool list list" where
  "stepSeq = [[HIGH, LOW,  HIGH, LOW ],
              [LOW,  HIGH, HIGH, LOW ],
              [LOW,  HIGH, LOW,  HIGH],
              [HIGH, LOW,  LOW,  HIGH]]"

text \<open>The static initialisers: the state when \<^verbatim>\<open>setup()\<close> starts. No pin has been written.\<close>

definition powerOn :: washer where
  "powerOn = \<lparr> stepperMode = STEPPER_STOP, stepIndex = 0, stepIntervalUs = 1200,
               lastStepUs = 0, currentState = IDLE, stateStartMs = 0,
               washPhaseStartMs = 0, washForward = True, lastLcdMs = 0,
               prevStartRaw = False, lastStartChangeMs = 0, startPressedEvent = False,
               stablePressed = False, safeScreenShown = False,
               pins = (\<lambda>p. LOW), lcd = [] \<rparr>"

section \<open>Output helpers\<close>

definition digitalWrite :: "nat \<Rightarrow> bool \<Rightarrow> washer \<Rightarrow> washer" where
  "digitalWrite pin v s = s\<lparr>pins := (pins s)(pin := v)\<rparr>"

text \<open>The relays are active-low: on is \<^verbatim>\<open>LOW\<close>.\<close>

definition relayOn :: "nat \<Rightarrow> washer \<Rightarrow> washer" where
  "relayOn pin s = digitalWrite pin LOW s"

definition relayOff :: "nat \<Rightarrow> washer \<Rightarrow> washer" where
  "relayOff pin s = digitalWrite pin HIGH s"

text \<open>
  \<open>applyStepperStep\<close> indexes the 4 by 4 table; its only caller passes an index masked
  with \<open>0x03\<close>. Outside the table (undefined behaviour in C, and never reached) the
  model writes nothing.
\<close>

definition applyStepperStep :: "u8 \<Rightarrow> washer \<Rightarrow> washer" where
  "applyStepperStep idx s =
     (if unat idx < 4 then
        (let row = stepSeq ! unat idx;
             s1 = digitalWrite IN1_PIN (row ! 0) s;
             s2 = digitalWrite IN2_PIN (row ! 1) s1;
             s3 = digitalWrite IN3_PIN (row ! 2) s2
         in digitalWrite IN4_PIN (row ! 3) s3)
      else s)"

definition stepperStop :: "washer \<Rightarrow> washer" where
  "stepperStop s =
     digitalWrite IN4_PIN LOW (digitalWrite IN3_PIN LOW (digitalWrite IN2_PIN LOW
       (digitalWrite IN1_PIN LOW (s\<lparr>stepperMode := STEPPER_STOP\<rparr>))))"

definition stepperRun :: "StepperMode \<Rightarrow> u32 \<Rightarrow> washer \<Rightarrow> washer" where
  "stepperRun m us s = s\<lparr>stepperMode := m, lastStepUs := us\<rparr>"

text \<open>The part of \<open>updateStepper\<close> after its two early returns: one phase advance.\<close>

definition stepAdvance :: "u32 \<Rightarrow> washer \<Rightarrow> washer" where
  "stepAdvance us s =
     (let s1 = s\<lparr>lastStepUs := us\<rparr>;
          s2 = (if stepperMode s1 = STEPPER_CW then s1\<lparr>stepIndex := (stepIndex s1 + 1) AND 0x03\<rparr>
                else if stepperMode s1 = STEPPER_CCW then s1\<lparr>stepIndex := (stepIndex s1 + 3) AND 0x03\<rparr>
                else s1)
      in applyStepperStep (stepIndex s2) s2)"

definition updateStepper :: "u32 \<Rightarrow> washer \<Rightarrow> washer" where
  "updateStepper us s =
     (if stepperMode s = STEPPER_STOP then s
      else if us - lastStepUs s < stepIntervalUs s then s
      else stepAdvance us s)"

definition lcdWrite4 :: "u32 \<Rightarrow> string \<Rightarrow> string \<Rightarrow> string \<Rightarrow> string \<Rightarrow> washer \<Rightarrow> washer" where
  "lcdWrite4 ms l0 l1 l2 l3 s =
     (if ms - lastLcdMs s < LCD_REFRESH_MS then s
      else s\<lparr>lastLcdMs := ms, lcd := [l0, l1, l2, l3]\<rparr>)"

definition setRunLeds :: "bool \<Rightarrow> bool \<Rightarrow> washer \<Rightarrow> washer" where
  "setRunLeds running finished s =
     digitalWrite LED_RED (if finished then HIGH else LOW)
       (digitalWrite LED_YELLOW (if running then HIGH else LOW) s)"

definition stopAllActuators :: "washer \<Rightarrow> washer" where
  "stopAllActuators s =
     setRunLeds False False (stepperStop (relayOff RELAY_DRAIN (relayOff RELAY_INLET s)))"

section \<open>The debounced start button\<close>

text \<open>
  The matrix scan drives each column low in turn and reads the four rows; \<open>keys c r\<close>
  says whether row \<open>r\<close> reads \<^verbatim>\<open>LOW\<close> while column \<open>c\<close> is driven. \<open>scanRows\<close> is the
  inner loop, \<open>scanColumns\<close> the outer one; the pair carries \<^verbatim>\<open>startRaw\<close>.
\<close>

definition scanRows :: "(nat \<Rightarrow> nat \<Rightarrow> bool) \<Rightarrow> nat \<Rightarrow> bool \<Rightarrow> bool" where
  "scanRows keys c startRaw =
     foldl (\<lambda>acc r. if r = START_ROW \<and> c = START_COL \<and> keys c r then True else acc)
       startRaw [0 ..< 4]"

definition scanColumns :: "(nat \<Rightarrow> nat \<Rightarrow> bool) \<Rightarrow> washer \<Rightarrow> washer \<times> bool" where
  "scanColumns keys s =
     foldl (\<lambda>(s0, startRaw) c.
              (digitalWrite (colPins ! c) HIGH (digitalWrite (colPins ! c) LOW s0),
               scanRows keys c startRaw))
       (s, False) [0 ..< 4]"

text \<open>
  Lines 142 to 157 of \<open>scanStartButton\<close>: the change stamp and the debounced rising
  edge. \<open>stablePressed\<close> is the function's static local.
\<close>

definition debounceStart :: "bool \<Rightarrow> u32 \<Rightarrow> washer \<Rightarrow> washer" where
  "debounceStart startRaw now s =
     (let s1 = (if startRaw \<noteq> prevStartRaw s
                then s\<lparr>prevStartRaw := startRaw, lastStartChangeMs := now\<rparr> else s)
      in if now - lastStartChangeMs s1 > DEBOUNCE_MS then
           (let s2 = (if startRaw \<and> \<not> stablePressed s1
                      then s1\<lparr>startPressedEvent := True\<rparr> else s1)
            in s2\<lparr>stablePressed := startRaw\<rparr>)
         else s1)"

definition scanStartButton :: "(nat \<Rightarrow> nat \<Rightarrow> bool) \<Rightarrow> u32 \<Rightarrow> washer \<Rightarrow> washer" where
  "scanStartButton keys ms s =
     (case scanColumns keys s of (s1, startRaw) \<Rightarrow> debounceStart startRaw ms s1)"

section \<open>The cycle state machine\<close>

definition enterState :: "WashingState \<Rightarrow> u32 \<Rightarrow> u32 \<Rightarrow> washer \<Rightarrow> washer" where
  "enterState st ms us s =
     (let s1 = s\<lparr>currentState := st, stateStartMs := ms\<rparr>;
          s2 = relayOff RELAY_DRAIN (relayOff RELAY_INLET s1)
      in case st of
           IDLE \<Rightarrow>
             lcdWrite4 ms ''WASHER: READY'' ''Press START button'' ''RFID: ENABLED''
               ''State: IDLE'' (stopAllActuators s2)
         | FILLING \<Rightarrow>
             lcdWrite4 ms ''Cycle Running...'' ''FILLING water'' ''Inlet: ON''
               ''State: FILLING''
               (relayOn RELAY_INLET (setRunLeds True False (stepperStop s2)))
         | WASHING \<Rightarrow>
             lcdWrite4 ms ''Cycle Running...'' ''WASHING (drum)'' ''Direction: FWD''
               ''State: WASHING''
               (stepperRun STEPPER_CW us
                 ((relayOff RELAY_INLET (setRunLeds True False s2))
                    \<lparr>stepIntervalUs := 1200, washForward := True, washPhaseStartMs := ms\<rparr>))
         | RINSING \<Rightarrow>
             lcdWrite4 ms ''Cycle Running...'' ''RINSING'' ''Drum: slow''
               ''State: RINSING''
               (stepperRun STEPPER_CW us ((setRunLeds True False s2)\<lparr>stepIntervalUs := 1400\<rparr>))
         | SPINNING \<Rightarrow>
             lcdWrite4 ms ''Cycle Running...'' ''SPINNING'' ''Drum: fast''
               ''State: SPINNING''
               (stepperRun STEPPER_CW us ((setRunLeds True False s2)\<lparr>stepIntervalUs := 800\<rparr>))
         | DRAINING \<Rightarrow>
             lcdWrite4 ms ''Cycle Running...'' ''DRAINING water'' ''Drain: ON''
               ''State: DRAINING''
               (relayOn RELAY_DRAIN (setRunLeds True False (stepperStop s2)))
         | FINISHED \<Rightarrow>
             lcdWrite4 ms ''CYCLE COMPLETE'' ''Remove laundry'' ''Press START to''
               ''State: FINISHED''
               (setRunLeds False True (stopAllActuators s2)))"

text \<open>
  \<open>setupWasher\<close>: the pin modes have no counterpart in the model; the writes have.
\<close>

definition setupWasher :: "u32 \<Rightarrow> u32 \<Rightarrow> washer \<Rightarrow> washer" where
  "setupWasher ms us s =
     (let s1 = foldl (\<lambda>s0 i. digitalWrite (colPins ! i) HIGH s0) s [0 ..< 4];
          s2 = digitalWrite LED_RED LOW (digitalWrite LED_YELLOW LOW s1);
          s3 = relayOff RELAY_DRAIN (relayOff RELAY_INLET s2);
          s4 = stepperStop s3
      in enterState IDLE ms us (s4\<lparr>safeScreenShown := False\<rparr>))"

definition washerSafeStop :: "washer \<Rightarrow> washer" where
  "washerSafeStop s =
     (let s1 = (stopAllActuators s)\<lparr>currentState := IDLE\<rparr>
      in if \<not> safeScreenShown s1
         then s1\<lparr>lcd := [''WASHER LOCKED'', ''Tap RFID to enable'', ''Status: DISABLED'',
                          ''All outputs OFF''],
                  safeScreenShown := True\<rparr>
         else s1)"

text \<open>The second \<^verbatim>\<open>if\<close> of every running stage, and the first of \<open>FINISHED\<close>.\<close>

definition cancelToIdle :: "u32 \<Rightarrow> u32 \<Rightarrow> washer \<Rightarrow> washer" where
  "cancelToIdle ms us s =
     (if startPressedEvent s then enterState IDLE ms us (s\<lparr>startPressedEvent := False\<rparr>)
      else s)"

text \<open>The direction alternation at the head of the \<open>WASHING\<close> case.\<close>

definition washAgitate :: "u32 \<Rightarrow> u32 \<Rightarrow> washer \<Rightarrow> washer" where
  "washAgitate now us s =
     (let phaseElapsed = now - washPhaseStartMs s
      in if washForward s \<and> phaseElapsed \<ge> WASH_FORWARD_MS
         then stepperRun STEPPER_CCW us (s\<lparr>washForward := False, washPhaseStartMs := now\<rparr>)
         else if \<not> washForward s \<and> phaseElapsed \<ge> WASH_REVERSE_MS
         then stepperRun STEPPER_CW us (s\<lparr>washForward := True, washPhaseStartMs := now\<rparr>)
         else s)"

text \<open>The \<^verbatim>\<open>switch\<close> of \<open>washerLoop\<close>; \<open>now\<close> is the value read just before it.\<close>

definition washerDispatch :: "u32 \<Rightarrow> u32 \<Rightarrow> washer \<Rightarrow> washer" where
  "washerDispatch now us s =
     (case currentState s of
        IDLE \<Rightarrow>
          (if startPressedEvent s then enterState FILLING now us (s\<lparr>startPressedEvent := False\<rparr>)
           else s)
      | FILLING \<Rightarrow>
          (let s1 = lcdWrite4 now ''Cycle Running...'' ''FILLING water'' ''Inlet: ON''
                      ''State: FILLING'' s;
               s2 = (if now - stateStartMs s1 \<ge> FILL_MS
                     then enterState WASHING now us (relayOff RELAY_INLET s1) else s1)
           in cancelToIdle now us s2)
      | WASHING \<Rightarrow>
          (let s1 = washAgitate now us s;
               s2 = lcdWrite4 now ''Cycle Running...'' ''WASHING (drum)''
                      (if washForward s1 then ''Direction: FWD'' else ''Direction: REV'')
                      ''State: WASHING'' s1;
               s3 = (if now - stateStartMs s2 \<ge> WASH_MS
                     then enterState RINSING now us (stepperStop s2) else s2)
           in cancelToIdle now us s3)
      | RINSING \<Rightarrow>
          (let s1 = lcdWrite4 now ''Cycle Running...'' ''RINSING'' ''Drum: slow''
                      ''State: RINSING'' s;
               s2 = (if now - stateStartMs s1 \<ge> RINSE_MS
                     then enterState SPINNING now us s1 else s1)
           in cancelToIdle now us s2)
      | SPINNING \<Rightarrow>
          (let s1 = lcdWrite4 now ''Cycle Running...'' ''SPINNING'' ''Drum: fast''
                      ''State: SPINNING'' s;
               s2 = (if now - stateStartMs s1 \<ge> SPIN_MS
                     then enterState DRAINING now us (stepperStop (s1\<lparr>stepIntervalUs := 1200\<rparr>))
                     else s1)
           in cancelToIdle now us s2)
      | DRAINING \<Rightarrow>
          (let s1 = lcdWrite4 now ''Cycle Running...'' ''DRAINING water'' ''Drain: ON''
                      ''State: DRAINING'' s;
               s2 = (if now - stateStartMs s1 \<ge> DRAIN_MS
                     then enterState FINISHED now us (relayOff RELAY_DRAIN s1) else s1)
           in cancelToIdle now us s2)
      | FINISHED \<Rightarrow>
          (let s1 = lcdWrite4 now ''CYCLE COMPLETE'' ''Remove laundry'' ''Press START to''
                      ''restart / idle'' s;
               s2 = cancelToIdle now us s1
           in if now - stateStartMs s2 \<ge> FINISH_MS then enterState IDLE now us s2 else s2))"

text \<open>
  One pass of \<^verbatim>\<open>loop()\<close> takes the armed signal as \<open>rfidLoop\<close> left it, the two clock
  readings and the key matrix.
\<close>

record tick =
  armed :: bool
  nowMs :: u32
  nowUs :: u32
  keys :: "nat \<Rightarrow> nat \<Rightarrow> bool"

text \<open>The first three statements of \<open>washerLoop\<close>, up to the \<^verbatim>\<open>switch\<close>.\<close>

definition washerResume :: "tick \<Rightarrow> washer \<Rightarrow> washer" where
  "washerResume i s =
     (if safeScreenShown s
      then enterState IDLE (nowMs i) (nowUs i) (s\<lparr>safeScreenShown := False\<rparr>) else s)"

definition washerScan :: "tick \<Rightarrow> washer \<Rightarrow> washer" where
  "washerScan i s =
     updateStepper (nowUs i) (scanStartButton (keys i) (nowMs i) (washerResume i s))"

definition washerLoop :: "tick \<Rightarrow> washer \<Rightarrow> washer" where
  "washerLoop i s = washerDispatch (nowMs i) (nowUs i) (washerScan i s)"

text \<open>
  \<open>setupMain\<close> and \<open>loop\<close> are \<^verbatim>\<open>setup()\<close> and \<^verbatim>\<open>loop()\<close> of \<^verbatim>\<open>main.ino\<close>. \<open>rfidLoop\<close> belongs to the access gate; what
  the washer sees of it is \<^verbatim>\<open>washerEnabled\<close>, the \<open>armed\<close> field of the input.
\<close>

definition setupMain :: "u32 \<Rightarrow> u32 \<Rightarrow> washer" where
  "setupMain ms us = washerSafeStop (setupWasher ms us powerOn)"

definition loop :: "tick \<Rightarrow> washer \<Rightarrow> washer" where
  "loop i s = (if armed i then washerLoop i s else washerSafeStop s)"

fun run :: "washer \<Rightarrow> tick list \<Rightarrow> washer" where
  "run s [] = s"
| "run s (i # is) = run (loop i s) is"

section \<open>What is observed of a state\<close>

text \<open>A valve is open when its relay is on, that is when its pin is \<^verbatim>\<open>LOW\<close>.\<close>

definition inletOn :: "washer \<Rightarrow> bool" where
  "inletOn s = (pins s RELAY_INLET = LOW)"

definition drainOn :: "washer \<Rightarrow> bool" where
  "drainOn s = (pins s RELAY_DRAIN = LOW)"

definition coils :: "washer \<Rightarrow> bool list" where
  "coils s = [pins s IN1_PIN, pins s IN2_PIN, pins s IN3_PIN, pins s IN4_PIN]"

definition quiesced :: "washer \<Rightarrow> bool" where
  "quiesced s =
     (\<not> inletOn s \<and> \<not> drainOn s \<and> stepperMode s = STEPPER_STOP \<and>
      coils s = [LOW, LOW, LOW, LOW] \<and> currentState s = IDLE)"

text \<open>
  The table of section 4.4 of the specification, written from its words: for each stage
  whether the inlet valve is open, whether the drain valve is open, the stepper mode, and
  the step interval in microseconds where the stepper moves. The specification names the
  speeds normal, reduced and increased; the intervals 1200, 1400 and 800 are the code's.
\<close>

fun stageTable :: "WashingState \<Rightarrow> bool \<times> bool \<times> StepperMode \<times> u32 option" where
  "stageTable IDLE = (False, False, STEPPER_STOP, None)"
| "stageTable FILLING = (True, False, STEPPER_STOP, None)"
| "stageTable WASHING = (False, False, STEPPER_CW, Some 1200)"
| "stageTable RINSING = (False, False, STEPPER_CW, Some 1400)"
| "stageTable SPINNING = (False, False, STEPPER_CW, Some 800)"
| "stageTable DRAINING = (False, True, STEPPER_STOP, None)"
| "stageTable FINISHED = (False, False, STEPPER_STOP, None)"

definition outputsOf :: "washer \<Rightarrow> bool \<times> bool \<times> StepperMode \<times> u32 option" where
  "outputsOf s =
     (inletOn s, drainOn s, stepperMode s,
      if stepperMode s = STEPPER_STOP then None else Some (stepIntervalUs s))"

text \<open>
  Counting events over a run. \<open>startKey\<close> is the raw level of the start key in an input.
  A pass produces an event when the scan raises the flag, consumes one when the flag is up
  at the \<^verbatim>\<open>switch\<close> and down after it, and sees a debounced rising edge when the debounced
  level \<open>stablePressed\<close> goes from released to pressed.
\<close>

definition startKey :: "tick \<Rightarrow> bool" where
  "startKey i = keys i START_COL START_ROW"

definition producesEvent :: "tick \<Rightarrow> washer \<Rightarrow> bool" where
  "producesEvent i s =
     (armed i \<and> \<not> startPressedEvent s \<and> startPressedEvent (washerScan i s))"

definition consumesEvent :: "tick \<Rightarrow> washer \<Rightarrow> bool" where
  "consumesEvent i s =
     (armed i \<and> startPressedEvent (washerScan i s) \<and> \<not> startPressedEvent (washerLoop i s))"

definition risingEdge :: "tick \<Rightarrow> washer \<Rightarrow> bool" where
  "risingEdge i s = (armed i \<and> \<not> stablePressed s \<and> stablePressed (washerScan i s))"

fun countTicks :: "(tick \<Rightarrow> washer \<Rightarrow> bool) \<Rightarrow> washer \<Rightarrow> tick list \<Rightarrow> nat" where
  "countTicks P s [] = 0"
| "countTicks P s (i # is) = (if P i s then 1 else 0) + countTicks P (loop i s) is"

definition eventsProduced :: "washer \<Rightarrow> tick list \<Rightarrow> nat" where
  "eventsProduced = countTicks producesEvent"

definition eventsConsumed :: "washer \<Rightarrow> tick list \<Rightarrow> nat" where
  "eventsConsumed = countTicks consumesEvent"

definition risingEdges :: "washer \<Rightarrow> tick list \<Rightarrow> nat" where
  "risingEdges = countTicks risingEdge"

text \<open>
  Comparing two states for what follows a re-arm. \<open>stageView\<close> is the stage with the
  valve outputs and the stepper mode. \<open>buttonAlike\<close>: the edge detectors agree, where the
  change stamps may differ as long as both detectors are at rest (released, raw and
  debounced). \<open>timersAlike\<close>: the time stamps that the current stage still reads agree.
  \<open>resumeAlike\<close> puts these together; while the locked screen is shown the time stamps
  do not matter, since the next armed pass enters \<open>IDLE\<close> afresh. \<open>phaseAlike\<close>: the
  stepper phase and coil outputs agree. \<open>entryAlike\<close> is what \<open>enterState\<close> needs of two
  states to make them \<open>alike\<close>.
\<close>

definition stageView :: "washer \<Rightarrow> WashingState \<times> bool \<times> bool \<times> StepperMode" where
  "stageView s = (currentState s, inletOn s, drainOn s, stepperMode s)"

definition buttonAlike :: "washer \<Rightarrow> washer \<Rightarrow> bool" where
  "buttonAlike a b =
     (prevStartRaw a = prevStartRaw b \<and> stablePressed a = stablePressed b \<and>
      startPressedEvent a = startPressedEvent b \<and>
      (lastStartChangeMs a = lastStartChangeMs b \<or>
       (prevStartRaw a = False \<and> stablePressed a = False)))"

definition timersAlike :: "washer \<Rightarrow> washer \<Rightarrow> bool" where
  "timersAlike a b =
     (stateStartMs a = stateStartMs b \<and>
      (if stepperMode a = STEPPER_STOP then True else lastStepUs a = lastStepUs b) \<and>
      (if stepperMode a = STEPPER_STOP \<and> currentState a \<noteq> WASHING then True
       else stepIntervalUs a = stepIntervalUs b) \<and>
      (if currentState a = WASHING
       then washForward a = washForward b \<and> washPhaseStartMs a = washPhaseStartMs b
       else True))"

definition resumeAlike :: "washer \<Rightarrow> washer \<Rightarrow> bool" where
  "resumeAlike a b =
     (safeScreenShown a = safeScreenShown b \<and> stageView a = stageView b \<and>
      buttonAlike a b \<and> (if safeScreenShown a then True else timersAlike a b))"

definition phaseAlike :: "washer \<Rightarrow> washer \<Rightarrow> bool" where
  "phaseAlike a b = (stepIndex a = stepIndex b \<and> coils a = coils b)"

definition entryAlike :: "bool \<Rightarrow> washer \<Rightarrow> washer \<Rightarrow> bool" where
  "entryAlike c a b =
     (buttonAlike a b \<and> safeScreenShown a = safeScreenShown b \<and>
      (if c then phaseAlike a b else True))"

definition alike :: "bool \<Rightarrow> washer \<Rightarrow> washer \<Rightarrow> bool" where
  "alike c a b = (resumeAlike a b \<and> (if c then phaseAlike a b else True))"

text \<open>
  The time budget of each stage and the stage its timeout enters, as the \<^verbatim>\<open>switch\<close> of
  \<open>washerLoop\<close> has them. \<open>IDLE\<close> has no budget (it waits for the start event); its entry
  in \<open>budget\<close> is not used.
\<close>

fun budget :: "WashingState \<Rightarrow> u32" where
  "budget IDLE = 0"
| "budget FILLING = FILL_MS"
| "budget WASHING = WASH_MS"
| "budget RINSING = RINSE_MS"
| "budget SPINNING = SPIN_MS"
| "budget DRAINING = DRAIN_MS"
| "budget FINISHED = FINISH_MS"

fun successor :: "WashingState \<Rightarrow> WashingState" where
  "successor IDLE = FILLING"
| "successor FILLING = WASHING"
| "successor WASHING = RINSING"
| "successor RINSING = SPINNING"
| "successor SPINNING = DRAINING"
| "successor DRAINING = FINISHED"
| "successor FINISHED = IDLE"

text \<open>
  The valve outputs as a function of the stage: the inlet valve is open exactly in
  \<open>FILLING\<close>, the drain valve exactly in \<open>DRAINING\<close>.
\<close>

definition valvesOK :: "washer \<Rightarrow> bool" where
  "valvesOK s =
     (inletOn s = (currentState s = FILLING) \<and> drainOn s = (currentState s = DRAINING))"

text \<open>The states the controller can be in between two passes of \<open>loop\<close>.\<close>

inductive reachable :: "washer \<Rightarrow> bool" where
  boot: "reachable (setupMain ms us)"
| pass: "reachable s \<Longrightarrow> reachable (loop i s)"

text \<open>
  An input for examples: armed or not, the millisecond clock (the microsecond clock a
  thousand times it), and the start key pressed or not.
\<close>

definition tickAt :: "bool \<Rightarrow> u32 \<Rightarrow> bool \<Rightarrow> tick" where
  "tickAt a ms pressed =
     \<lparr>armed = a, nowMs = ms, nowUs = 1000 * ms,
      keys = (\<lambda>c r. pressed \<and> c = START_COL \<and> r = START_ROW)\<rparr>"

section \<open>Basic facts\<close>

lemmas pin_defs = colPins_def START_ROW_def START_COL_def LED_YELLOW_def LED_RED_def
  RELAY_INLET_def RELAY_DRAIN_def IN1_PIN_def IN2_PIN_def IN3_PIN_def IN4_PIN_def

lemmas out_defs = digitalWrite_def relayOn_def relayOff_def stepperStop_def stepperRun_def
  setRunLeds_def stopAllActuators_def

lemmas obs_defs = inletOn_def drainOn_def coils_def

lemma upt4: "[0 ..< 4] = [0, 1, 2, 3::nat]"
  by (simp add: upt_rec)

lemma scanRows_eq: "scanRows km c b = (if c = 0 \<and> km 0 0 then True else b)"
  by (auto simp add: scanRows_def upt4 START_ROW_def START_COL_def)

lemma scanColumns_eq:
  "scanColumns km s =
     (s\<lparr>pins := (pins s)(30 := True, 31 := True, 32 := True, 33 := True)\<rparr>, km 0 0)"
  by (simp add: scanColumns_def upt4 scanRows_eq digitalWrite_def colPins_def)

lemma and3: "unat ((x::u8) AND 3) = unat x mod 4"
proof -
  have h: "x AND 3 = take_bit 2 x"
    by (simp add: take_bit_eq_mask mask_eq_exp_minus_1)
  have "unat (x AND 3) = unat (take_bit 2 x)" by (simp only: h)
  also have "\<dots> = take_bit 2 (unat x)" by (rule unsigned_take_bit_eq)
  also have "\<dots> = unat x mod 4" by (simp add: take_bit_eq_mod)
  finally show ?thesis .
qed

lemma mod256_4: "(n mod 256) mod 4 = (n::nat) mod 4"
  by (rule mod_mod_cancel) simp

lemma step_cw: "unat (((x::u8) + 1) AND 3) = (unat x + 1) mod 4"
  by (simp add: and3 unat_word_ariths mod256_4)

lemma step_ccw: "unat (((x::u8) + 3) AND 3) = (unat x + 3) mod 4"
  by (simp add: and3 unat_word_ariths mod256_4)

lemma step_ccw_int: "uint (((x::u8) + 3) AND 3) = (uint x - 1) mod 4"
proof -
  have "int (unat ((x + 3) AND 3)) = int ((unat x + 3) mod 4)"
    by (simp only: step_ccw)
  also have "\<dots> = (int (unat x) - 1) mod 4"
    by (simp add: zmod_int) presburger
  finally show ?thesis by simp
qed

lemma lcdWrite4_static [simp]:
  "stepperMode (lcdWrite4 ms a b c d s) = stepperMode s"
  "stepIndex (lcdWrite4 ms a b c d s) = stepIndex s"
  "stepIntervalUs (lcdWrite4 ms a b c d s) = stepIntervalUs s"
  "lastStepUs (lcdWrite4 ms a b c d s) = lastStepUs s"
  "currentState (lcdWrite4 ms a b c d s) = currentState s"
  "stateStartMs (lcdWrite4 ms a b c d s) = stateStartMs s"
  "washPhaseStartMs (lcdWrite4 ms a b c d s) = washPhaseStartMs s"
  "washForward (lcdWrite4 ms a b c d s) = washForward s"
  "prevStartRaw (lcdWrite4 ms a b c d s) = prevStartRaw s"
  "lastStartChangeMs (lcdWrite4 ms a b c d s) = lastStartChangeMs s"
  "startPressedEvent (lcdWrite4 ms a b c d s) = startPressedEvent s"
  "stablePressed (lcdWrite4 ms a b c d s) = stablePressed s"
  "safeScreenShown (lcdWrite4 ms a b c d s) = safeScreenShown s"
  "pins (lcdWrite4 ms a b c d s) = pins s"
  by (simp_all add: lcdWrite4_def)

lemma enterState_static [simp]:
  "currentState (enterState st ms us s) = st"
  "stateStartMs (enterState st ms us s) = ms"
  "startPressedEvent (enterState st ms us s) = startPressedEvent s"
  "prevStartRaw (enterState st ms us s) = prevStartRaw s"
  "lastStartChangeMs (enterState st ms us s) = lastStartChangeMs s"
  "stablePressed (enterState st ms us s) = stablePressed s"
  "safeScreenShown (enterState st ms us s) = safeScreenShown s"
  "stepIndex (enterState st ms us s) = stepIndex s"
  by (cases st; simp add: enterState_def Let_def out_defs)+

lemma enterState_valves [simp]:
  "inletOn (enterState st ms us s) = (st = FILLING)"
  "drainOn (enterState st ms us s) = (st = DRAINING)"
  by (cases st; simp add: enterState_def Let_def out_defs obs_defs pin_defs)+

lemma enterState_mode [simp]:
  "stepperMode (enterState st ms us s) =
     (if st = WASHING \<or> st = RINSING \<or> st = SPINNING then STEPPER_CW else STEPPER_STOP)"
  by (cases st; simp add: enterState_def Let_def out_defs)

lemma enterState_interval:
  "stepIntervalUs (enterState WASHING ms us s) = 1200"
  "stepIntervalUs (enterState RINSING ms us s) = 1400"
  "stepIntervalUs (enterState SPINNING ms us s) = 800"
  by (simp_all add: enterState_def Let_def out_defs)

lemma enterState_coils_stopped:
  "st \<noteq> WASHING \<Longrightarrow> st \<noteq> RINSING \<Longrightarrow> st \<noteq> SPINNING \<Longrightarrow>
   coils (enterState st ms us s) = [LOW, LOW, LOW, LOW]"
  by (cases st; simp add: enterState_def Let_def out_defs obs_defs pin_defs)

lemma washerSafeStop_off:
  "\<not> inletOn (washerSafeStop s)" "\<not> drainOn (washerSafeStop s)"
  "stepperMode (washerSafeStop s) = STEPPER_STOP"
  "coils (washerSafeStop s) = [LOW, LOW, LOW, LOW]"
  "currentState (washerSafeStop s) = IDLE"
  "safeScreenShown (washerSafeStop s)"
  by (simp_all add: washerSafeStop_def Let_def out_defs obs_defs pin_defs)

lemma washerSafeStop_quiesced: "quiesced (washerSafeStop s)"
  by (simp add: quiesced_def washerSafeStop_off)

lemma run_disarmed_quiesced:
  "js \<noteq> [] \<Longrightarrow> list_all (\<lambda>j. \<not> armed j) js \<Longrightarrow> quiesced (run s js)"
proof (induction js arbitrary: s)
  case Nil
  then show ?case by simp
next
  case (Cons j js)
  show ?case
  proof (cases js)
    case Nil
    with Cons.prems show ?thesis by (simp add: loop_def washerSafeStop_quiesced)
  next
    case (Cons k ks)
    with Cons.prems Cons.IH [of "loop j s"] show ?thesis by simp
  qed
qed

lemma debounceStart_static [simp]:
  "stepperMode (debounceStart b ms s) = stepperMode s"
  "stepIndex (debounceStart b ms s) = stepIndex s"
  "stepIntervalUs (debounceStart b ms s) = stepIntervalUs s"
  "lastStepUs (debounceStart b ms s) = lastStepUs s"
  "currentState (debounceStart b ms s) = currentState s"
  "stateStartMs (debounceStart b ms s) = stateStartMs s"
  "washPhaseStartMs (debounceStart b ms s) = washPhaseStartMs s"
  "washForward (debounceStart b ms s) = washForward s"
  "lastLcdMs (debounceStart b ms s) = lastLcdMs s"
  "safeScreenShown (debounceStart b ms s) = safeScreenShown s"
  "pins (debounceStart b ms s) = pins s"
  "lcd (debounceStart b ms s) = lcd s"
  by (simp_all add: debounceStart_def Let_def)

lemma scanStartButton_static [simp]:
  "stepperMode (scanStartButton km ms s) = stepperMode s"
  "stepIndex (scanStartButton km ms s) = stepIndex s"
  "stepIntervalUs (scanStartButton km ms s) = stepIntervalUs s"
  "lastStepUs (scanStartButton km ms s) = lastStepUs s"
  "currentState (scanStartButton km ms s) = currentState s"
  "stateStartMs (scanStartButton km ms s) = stateStartMs s"
  "washPhaseStartMs (scanStartButton km ms s) = washPhaseStartMs s"
  "washForward (scanStartButton km ms s) = washForward s"
  "lastLcdMs (scanStartButton km ms s) = lastLcdMs s"
  "safeScreenShown (scanStartButton km ms s) = safeScreenShown s"
  "lcd (scanStartButton km ms s) = lcd s"
  "pins (scanStartButton km ms s) = (pins s)(30 := True, 31 := True, 32 := True, 33 := True)"
  by (simp_all add: scanStartButton_def scanColumns_eq)

lemma scanStartButton_debounce:
  "prevStartRaw (scanStartButton km ms s) = prevStartRaw (debounceStart (km 0 0) ms s)"
  "lastStartChangeMs (scanStartButton km ms s) = lastStartChangeMs (debounceStart (km 0 0) ms s)"
  "startPressedEvent (scanStartButton km ms s) = startPressedEvent (debounceStart (km 0 0) ms s)"
  "stablePressed (scanStartButton km ms s) = stablePressed (debounceStart (km 0 0) ms s)"
  by (simp_all add: scanStartButton_def scanColumns_eq debounceStart_def Let_def)

lemma scanStartButton_obs [simp]:
  "inletOn (scanStartButton km ms s) = inletOn s"
  "drainOn (scanStartButton km ms s) = drainOn s"
  "coils (scanStartButton km ms s) = coils s"
  by (simp_all add: obs_defs pin_defs)

lemma applyStepperStep_static [simp]:
  "stepperMode (applyStepperStep x s) = stepperMode s"
  "stepIndex (applyStepperStep x s) = stepIndex s"
  "stepIntervalUs (applyStepperStep x s) = stepIntervalUs s"
  "lastStepUs (applyStepperStep x s) = lastStepUs s"
  "currentState (applyStepperStep x s) = currentState s"
  "stateStartMs (applyStepperStep x s) = stateStartMs s"
  "washPhaseStartMs (applyStepperStep x s) = washPhaseStartMs s"
  "washForward (applyStepperStep x s) = washForward s"
  "lastLcdMs (applyStepperStep x s) = lastLcdMs s"
  "prevStartRaw (applyStepperStep x s) = prevStartRaw s"
  "lastStartChangeMs (applyStepperStep x s) = lastStartChangeMs s"
  "startPressedEvent (applyStepperStep x s) = startPressedEvent s"
  "stablePressed (applyStepperStep x s) = stablePressed s"
  "safeScreenShown (applyStepperStep x s) = safeScreenShown s"
  "lcd (applyStepperStep x s) = lcd s"
  by (simp_all add: applyStepperStep_def Let_def digitalWrite_def)

lemma applyStepperStep_pins [simp]:
  "p \<noteq> 9 \<Longrightarrow> p \<noteq> 10 \<Longrightarrow> p \<noteq> 11 \<Longrightarrow> p \<noteq> 12 \<Longrightarrow>
   pins (applyStepperStep x s) p = pins s p"
  by (simp add: applyStepperStep_def Let_def digitalWrite_def pin_defs)

lemma updateStepper_pins [simp]:
  "p \<noteq> 9 \<Longrightarrow> p \<noteq> 10 \<Longrightarrow> p \<noteq> 11 \<Longrightarrow> p \<noteq> 12 \<Longrightarrow>
   pins (updateStepper us s) p = pins s p"
  by (simp add: updateStepper_def stepAdvance_def Let_def)

lemma updateStepper_static [simp]:
  "stepperMode (updateStepper us s) = stepperMode s"
  "stepIntervalUs (updateStepper us s) = stepIntervalUs s"
  "currentState (updateStepper us s) = currentState s"
  "stateStartMs (updateStepper us s) = stateStartMs s"
  "washPhaseStartMs (updateStepper us s) = washPhaseStartMs s"
  "washForward (updateStepper us s) = washForward s"
  "lastLcdMs (updateStepper us s) = lastLcdMs s"
  "prevStartRaw (updateStepper us s) = prevStartRaw s"
  "lastStartChangeMs (updateStepper us s) = lastStartChangeMs s"
  "startPressedEvent (updateStepper us s) = startPressedEvent s"
  "stablePressed (updateStepper us s) = stablePressed s"
  "safeScreenShown (updateStepper us s) = safeScreenShown s"
  "lcd (updateStepper us s) = lcd s"
  by (simp_all add: updateStepper_def stepAdvance_def Let_def)

lemma updateStepper_valves [simp]:
  "inletOn (updateStepper us s) = inletOn s"
  "drainOn (updateStepper us s) = drainOn s"
  by (simp_all add: obs_defs pin_defs)

lemma cancelToIdle_static [simp]:
  "startPressedEvent (cancelToIdle ms us s) = False"
  "prevStartRaw (cancelToIdle ms us s) = prevStartRaw s"
  "lastStartChangeMs (cancelToIdle ms us s) = lastStartChangeMs s"
  "stablePressed (cancelToIdle ms us s) = stablePressed s"
  "safeScreenShown (cancelToIdle ms us s) = safeScreenShown s"
  "stepIndex (cancelToIdle ms us s) = stepIndex s"
  "currentState (cancelToIdle ms us s) = (if startPressedEvent s then IDLE else currentState s)"
  "stateStartMs (cancelToIdle ms us s) = (if startPressedEvent s then ms else stateStartMs s)"
  by (simp_all add: cancelToIdle_def)

lemma washerResume_static [simp]:
  "safeScreenShown (washerResume i s) = False"
  "startPressedEvent (washerResume i s) = startPressedEvent s"
  "prevStartRaw (washerResume i s) = prevStartRaw s"
  "lastStartChangeMs (washerResume i s) = lastStartChangeMs s"
  "stablePressed (washerResume i s) = stablePressed s"
  "stepIndex (washerResume i s) = stepIndex s"
  "currentState (washerResume i s) = (if safeScreenShown s then IDLE else currentState s)"
  "stateStartMs (washerResume i s) = (if safeScreenShown s then nowMs i else stateStartMs s)"
  by (simp_all add: washerResume_def)

lemma washerScan_static [simp]:
  "safeScreenShown (washerScan i s) = False"
  "currentState (washerScan i s) = (if safeScreenShown s then IDLE else currentState s)"
  "stateStartMs (washerScan i s) = (if safeScreenShown s then nowMs i else stateStartMs s)"
  by (simp_all add: washerScan_def)

lemma valvesOK_enterState [simp]: "valvesOK (enterState st ms us s)"
  by (simp add: valvesOK_def)

lemma valvesOK_cancelToIdle: "valvesOK s \<Longrightarrow> valvesOK (cancelToIdle ms us s)"
  by (simp add: cancelToIdle_def)

lemma valvesOK_lcdWrite4 [simp]: "valvesOK (lcdWrite4 ms a b c d s) = valvesOK s"
  by (simp add: valvesOK_def obs_defs)

lemma valvesOK_washerScan: "valvesOK s \<Longrightarrow> valvesOK (washerScan i s)"
  by (simp add: washerScan_def washerResume_def valvesOK_def)

lemma washAgitate_static [simp]:
  "stepIndex (washAgitate now us s) = stepIndex s"
  "stepIntervalUs (washAgitate now us s) = stepIntervalUs s"
  "currentState (washAgitate now us s) = currentState s"
  "stateStartMs (washAgitate now us s) = stateStartMs s"
  "lastLcdMs (washAgitate now us s) = lastLcdMs s"
  "prevStartRaw (washAgitate now us s) = prevStartRaw s"
  "lastStartChangeMs (washAgitate now us s) = lastStartChangeMs s"
  "startPressedEvent (washAgitate now us s) = startPressedEvent s"
  "stablePressed (washAgitate now us s) = stablePressed s"
  "safeScreenShown (washAgitate now us s) = safeScreenShown s"
  "pins (washAgitate now us s) = pins s"
  "lcd (washAgitate now us s) = lcd s"
  by (simp_all add: washAgitate_def Let_def stepperRun_def)

lemma valvesOK_frame [simp]:
  "valvesOK (washAgitate now us s) = valvesOK s"
  by (simp add: valvesOK_def obs_defs)

lemma valvesOK_washerDispatch: "valvesOK s \<Longrightarrow> valvesOK (washerDispatch ms us s)"
  by (cases "currentState s")
    (simp_all add: washerDispatch_def Let_def valvesOK_cancelToIdle)

lemma valvesOK_washerSafeStop: "valvesOK (washerSafeStop s)"
  by (simp add: valvesOK_def washerSafeStop_off)

lemma valvesOK_loop: "valvesOK s \<Longrightarrow> valvesOK (loop i s)"
  by (simp add: loop_def washerLoop_def valvesOK_washerDispatch valvesOK_washerScan
      valvesOK_washerSafeStop)

lemma valvesOK_setupMain: "valvesOK (setupMain ms us)"
  by (simp add: setupMain_def valvesOK_washerSafeStop)

lemma reachable_valvesOK: "reachable s \<Longrightarrow> valvesOK s"
  by (induction rule: reachable.induct) (simp_all add: valvesOK_setupMain valvesOK_loop)


lemmas eval_defs = tickAt_def loop_def washerLoop_def washerScan_def washerResume_def
  washerDispatch_def washAgitate_def cancelToIdle_def enterState_def washerSafeStop_def setupMain_def
  setupWasher_def scanStartButton_def scanColumns_eq debounceStart_def updateStepper_def
  stepAdvance_def applyStepperStep_def lcdWrite4_def out_defs powerOn_def Let_def upt4
  FILL_MS_def WASH_MS_def RINSE_MS_def SPIN_MS_def DRAIN_MS_def FINISH_MS_def
  WASH_FORWARD_MS_def WASH_REVERSE_MS_def LCD_REFRESH_MS_def DEBOUNCE_MS_def

lemma dispatch_no_event:
  assumes "currentState s \<noteq> IDLE" "\<not> startPressedEvent s"
  shows "currentState (washerDispatch now us s) =
           (if budget (currentState s) \<le> now - stateStartMs s
            then successor (currentState s) else currentState s)"
    and "stateStartMs (washerDispatch now us s) =
           (if budget (currentState s) \<le> now - stateStartMs s then now else stateStartMs s)"
proof -
  show "currentState (washerDispatch now us s) =
           (if budget (currentState s) \<le> now - stateStartMs s
            then successor (currentState s) else currentState s)"
    using assms by (cases "currentState s"; simp add: washerDispatch_def Let_def out_defs)
  show "stateStartMs (washerDispatch now us s) =
           (if budget (currentState s) \<le> now - stateStartMs s then now else stateStartMs s)"
    using assms by (cases "currentState s"; simp add: washerDispatch_def Let_def out_defs)
qed

lemma dispatch_event:
  assumes "startPressedEvent s"
  shows "currentState (washerDispatch now us s) =
           (if currentState s = IDLE then FILLING else IDLE)"
    and "stateStartMs (washerDispatch now us s) = now"
proof -
  show "currentState (washerDispatch now us s) =
           (if currentState s = IDLE then FILLING else IDLE)"
    using assms by (cases "currentState s"; simp add: washerDispatch_def Let_def out_defs FINISH_MS_def)
  show "stateStartMs (washerDispatch now us s) = now"
    using assms by (cases "currentState s"; simp add: washerDispatch_def Let_def out_defs FINISH_MS_def)
qed

lemma dispatch_clears_event [simp]: "\<not> startPressedEvent (washerDispatch now us s)"
  by (cases "currentState s"; simp add: washerDispatch_def Let_def out_defs)

lemma elapsed_true:
  assumes "d < 2 ^ 32"
  shows "unat ((a + of_nat d) - a :: u32) = d"
proof -
  have "(a + of_nat d) - a = (of_nat d :: u32)" by simp
  moreover from assms have "unat (of_nat d :: u32) = d"
    by (simp add: unat_of_nat)
  ultimately show ?thesis by simp
qed

lemma elapsed_ge:
  assumes "d < 2 ^ 32"
  shows "(b \<le> (a + of_nat d) - a) = (unat (b :: u32) \<le> d)"
  using elapsed_true [OF assms, of a] by (simp add: word_le_nat_alt)

lemma enterState_washForward [simp]:
  "washForward (enterState st ms us s) = (if st = WASHING then True else washForward s)"
  by (cases st; simp add: enterState_def Let_def out_defs)

lemma cancelToIdle_washForward [simp]:
  "washForward (cancelToIdle ms us s) = washForward s"
  by (simp add: cancelToIdle_def)

lemma wash_rev_fwd: "WASH_REVERSE_MS = WASH_FORWARD_MS"
  by (simp add: WASH_FORWARD_MS_def WASH_REVERSE_MS_def)

lemma washAgitate_washForward:
  "washForward (washAgitate now us s) =
     (if WASH_FORWARD_MS \<le> now - washPhaseStartMs s then \<not> washForward s else washForward s)"
  by (simp add: washAgitate_def Let_def stepperRun_def wash_rev_fwd)

lemma dispatch_wash_phase:
  assumes "currentState s = WASHING"
  shows "washForward (washerDispatch now us s) =
           (if WASH_FORWARD_MS \<le> now - washPhaseStartMs s then \<not> washForward s else washForward s)"
  using assms
  by (simp add: washerDispatch_def Let_def stepperStop_def digitalWrite_def washAgitate_washForward)

lemma cancel_after_enter:
  "startPressedEvent s1 \<Longrightarrow>
   cancelToIdle now us (enterState st now us s1) =
     enterState IDLE now us ((enterState st now us s1)\<lparr>startPressedEvent := False\<rparr>)"
  by (simp add: cancelToIdle_def)

lemma washerScan_wash [simp]:
  "\<not> safeScreenShown s \<Longrightarrow> washForward (washerScan i s) = washForward s"
  "\<not> safeScreenShown s \<Longrightarrow> washPhaseStartMs (washerScan i s) = washPhaseStartMs s"
  by (simp_all add: washerScan_def washerResume_def)

lemma debounceStart_button:
  "prevStartRaw (debounceStart raw now s) = raw"
  "lastStartChangeMs (debounceStart raw now s) =
     (if raw \<noteq> prevStartRaw s then now else lastStartChangeMs s)"
  "stablePressed (debounceStart raw now s) =
     (if raw = prevStartRaw s \<and> DEBOUNCE_MS < now - lastStartChangeMs s then raw
      else stablePressed s)"
  "startPressedEvent (debounceStart raw now s) =
     (startPressedEvent s \<or>
      (raw \<and> prevStartRaw s \<and> DEBOUNCE_MS < now - lastStartChangeMs s \<and> \<not> stablePressed s))"
  by (auto simp add: debounceStart_def Let_def DEBOUNCE_MS_def)

lemma washerDispatch_button [simp]:
  "prevStartRaw (washerDispatch now us s) = prevStartRaw s"
  "lastStartChangeMs (washerDispatch now us s) = lastStartChangeMs s"
  "stablePressed (washerDispatch now us s) = stablePressed s"
proof -
  show "prevStartRaw (washerDispatch now us s) = prevStartRaw s"
    by (cases "currentState s"; simp add: washerDispatch_def Let_def out_defs)
  show "lastStartChangeMs (washerDispatch now us s) = lastStartChangeMs s"
    by (cases "currentState s"; simp add: washerDispatch_def Let_def out_defs)
  show "stablePressed (washerDispatch now us s) = stablePressed s"
    by (cases "currentState s"; simp add: washerDispatch_def Let_def out_defs)
qed

lemma washerScan_button:
  "prevStartRaw (washerScan i s) = startKey i"
  "lastStartChangeMs (washerScan i s) =
     (if startKey i \<noteq> prevStartRaw s then nowMs i else lastStartChangeMs s)"
  "stablePressed (washerScan i s) =
     (if startKey i = prevStartRaw s \<and> DEBOUNCE_MS < nowMs i - lastStartChangeMs s
      then startKey i else stablePressed s)"
  "startPressedEvent (washerScan i s) =
     (startPressedEvent s \<or>
      (startKey i \<and> prevStartRaw s \<and> DEBOUNCE_MS < nowMs i - lastStartChangeMs s \<and>
       \<not> stablePressed s))"
  by (simp_all add: washerScan_def scanStartButton_debounce debounceStart_button startKey_def
      pin_defs)

lemma washerSafeStop_button [simp]:
  "prevStartRaw (washerSafeStop s) = prevStartRaw s"
  "lastStartChangeMs (washerSafeStop s) = lastStartChangeMs s"
  "stablePressed (washerSafeStop s) = stablePressed s"
  "startPressedEvent (washerSafeStop s) = startPressedEvent s"
  "stepIndex (washerSafeStop s) = stepIndex s"
  by (simp_all add: washerSafeStop_def Let_def out_defs)

lemma loop_button:
  "prevStartRaw (loop i s) = (if armed i then startKey i else prevStartRaw s)"
  "lastStartChangeMs (loop i s) =
     (if armed i \<and> startKey i \<noteq> prevStartRaw s then nowMs i else lastStartChangeMs s)"
  "stablePressed (loop i s) =
     (if armed i \<and> startKey i = prevStartRaw s \<and> DEBOUNCE_MS < nowMs i - lastStartChangeMs s
      then startKey i else stablePressed s)"
  "startPressedEvent (loop i s) = (if armed i then False else startPressedEvent s)"
  by (simp_all add: loop_def washerLoop_def washerScan_button)

lemma consumesEvent_eq:
  "consumesEvent i s = (armed i \<and> startPressedEvent (washerScan i s))"
  by (simp add: consumesEvent_def washerLoop_def)

lemma held_counts:
  assumes "prevStartRaw s" "\<not> startPressedEvent s"
    and "list_all (\<lambda>i. armed i \<and> startKey i) is"
  shows "countTicks consumesEvent s is =
           (if \<not> stablePressed s \<and> list_ex (\<lambda>i. DEBOUNCE_MS < nowMs i - lastStartChangeMs s) is
            then 1 else 0)"
    and "countTicks producesEvent s is =
           (if \<not> stablePressed s \<and> list_ex (\<lambda>i. DEBOUNCE_MS < nowMs i - lastStartChangeMs s) is
            then 1 else 0)"
  using assms
proof (induction "is" arbitrary: s)
  case Nil
  { case 1 show ?case by simp }
  { case 2 show ?case by simp }
next
  case (Cons i "is")
  { case 1
    from 1 have a: "armed i" "startKey i" "list_all (\<lambda>i. armed i \<and> startKey i) is" by simp_all
    from 1 a have p: "prevStartRaw (loop i s)" "\<not> startPressedEvent (loop i s)"
      "lastStartChangeMs (loop i s) = lastStartChangeMs s"
      by (simp_all add: loop_button)
    from Cons.IH(1) [OF p(1,2) a(3)] 1 a show ?case
      by (auto simp add: consumesEvent_eq washerScan_button loop_button) }
  { case 2
    from 2 have a: "armed i" "startKey i" "list_all (\<lambda>i. armed i \<and> startKey i) is" by simp_all
    from 2 a have p: "prevStartRaw (loop i s)" "\<not> startPressedEvent (loop i s)"
      "lastStartChangeMs (loop i s) = lastStartChangeMs s"
      by (simp_all add: loop_button)
    from Cons.IH(2) [OF p(1,2) a(3)] 2 a show ?case
      by (auto simp add: producesEvent_def washerScan_button loop_button) }
qed


lemma run_no_event: "\<not> startPressedEvent s \<Longrightarrow> \<not> startPressedEvent (run s is)"
  by (induction "is" arbitrary: s) (simp_all add: loop_button)

lemma consumed_le_edges:
  "\<not> startPressedEvent s \<Longrightarrow> countTicks consumesEvent s is \<le> countTicks risingEdge s is"
proof (induction "is" arbitrary: s)
  case Nil
  show ?case by simp
next
  case (Cons i "is")
  from Cons.prems have n: "\<not> startPressedEvent (loop i s)" by (simp add: loop_button)
  from Cons.prems have "consumesEvent i s \<longrightarrow> risingEdge i s"
    by (auto simp add: consumesEvent_eq risingEdge_def washerScan_button)
  with Cons.IH [OF n] show ?case by auto
qed

lemmas count_defs = eventsProduced_def eventsConsumed_def risingEdges_def producesEvent_def
  consumesEvent_eq risingEdge_def washerScan_button loop_button startKey_def

subsection \<open>States alike at a re-arm stay alike\<close>

lemma resumeAlikeI:
  assumes "safeScreenShown a = safeScreenShown b" and "stageView a = stageView b"
    and "buttonAlike a b" and "\<not> safeScreenShown a \<Longrightarrow> timersAlike a b"
  shows "resumeAlike a b"
  using assms by (simp add: resumeAlike_def)

lemma resumeAlikeD:
  assumes "resumeAlike a b"
  shows "safeScreenShown b = safeScreenShown a" and "stageView b = stageView a"
    and "buttonAlike a b" and "\<not> safeScreenShown a \<Longrightarrow> timersAlike a b"
  using assms by (simp_all add: resumeAlike_def)

lemma buttonAlikeD:
  assumes "buttonAlike a b"
  shows "prevStartRaw b = prevStartRaw a" and "stablePressed b = stablePressed a"
    and "startPressedEvent b = startPressedEvent a"
  using assms by (simp_all add: buttonAlike_def)

lemma buttonAlike_fields:
  assumes "buttonAlike a b"
    and "prevStartRaw a' = prevStartRaw a" and "stablePressed a' = stablePressed a"
    and "lastStartChangeMs a' = lastStartChangeMs a"
    and "prevStartRaw b' = prevStartRaw b" and "stablePressed b' = stablePressed b"
    and "lastStartChangeMs b' = lastStartChangeMs b"
    and "startPressedEvent a' = startPressedEvent b'"
  shows "buttonAlike a' b'"
  using assms unfolding buttonAlike_def by metis

lemma stageViewD:
  assumes "stageView b = stageView a"
  shows "currentState b = currentState a" and "inletOn b = inletOn a"
    and "drainOn b = drainOn a" and "stepperMode b = stepperMode a"
  using assms by (simp_all add: stageView_def)

lemma enterState_timers [simp]:
  "stepIntervalUs (enterState st ms us s) =
     (case st of WASHING \<Rightarrow> 1200 | RINSING \<Rightarrow> 1400 | SPINNING \<Rightarrow> 800 | _ \<Rightarrow> stepIntervalUs s)"
  "lastStepUs (enterState st ms us s) =
     (if st = WASHING \<or> st = RINSING \<or> st = SPINNING then us else lastStepUs s)"
  "washPhaseStartMs (enterState st ms us s) = (if st = WASHING then ms else washPhaseStartMs s)"
proof -
  show "stepIntervalUs (enterState st ms us s) =
     (case st of WASHING \<Rightarrow> 1200 | RINSING \<Rightarrow> 1400 | SPINNING \<Rightarrow> 800 | _ \<Rightarrow> stepIntervalUs s)"
    by (cases st; simp add: enterState_def Let_def out_defs)
  show "lastStepUs (enterState st ms us s) =
     (if st = WASHING \<or> st = RINSING \<or> st = SPINNING then us else lastStepUs s)"
    by (cases st; simp add: enterState_def Let_def out_defs)
  show "washPhaseStartMs (enterState st ms us s) = (if st = WASHING then ms else washPhaseStartMs s)"
    by (cases st; simp add: enterState_def Let_def out_defs)
qed

lemma enterState_coils:
  "coils (enterState st ms us s) =
     (if st = WASHING \<or> st = RINSING \<or> st = SPINNING then coils s else [LOW, LOW, LOW, LOW])"
  by (cases st; simp add: enterState_def Let_def out_defs obs_defs pin_defs)

lemma timersAlike_enterState: "timersAlike (enterState st ms us a) (enterState st ms us b)"
  by (cases st; simp add: timersAlike_def)

lemma stageView_enterState: "stageView (enterState st ms us a) = stageView (enterState st ms us b)"
  by (simp add: stageView_def)

lemma buttonAlike_enterState:
  assumes "buttonAlike a b"
  shows "buttonAlike (enterState st ms us a) (enterState st' ms' us' b)"
  by (rule buttonAlike_fields [OF assms]) (simp_all add: buttonAlikeD [OF assms])

lemma resumeAlike_enterState:
  assumes "buttonAlike a b" and "safeScreenShown a = safeScreenShown b"
  shows "resumeAlike (enterState st ms us a) (enterState st ms us b)"
  by (rule resumeAlikeI)
    (simp_all add: assms stageView_enterState timersAlike_enterState buttonAlike_enterState)

lemma phaseAlike_enterState:
  assumes "phaseAlike a b"
  shows "phaseAlike (enterState st ms us a) (enterState st ms us b)"
  using assms by (simp add: phaseAlike_def enterState_coils)

lemma stageView_washerSafeStop: "stageView (washerSafeStop a) = stageView (washerSafeStop b)"
  by (simp add: stageView_def washerSafeStop_off)

lemma resumeAlike_washerSafeStop:
  assumes "buttonAlike a b"
  shows "resumeAlike (washerSafeStop a) (washerSafeStop b)"
proof (rule resumeAlikeI)
  show "buttonAlike (washerSafeStop a) (washerSafeStop b)"
    by (rule buttonAlike_fields [OF assms]) (simp_all add: buttonAlikeD [OF assms])
qed (simp_all add: stageView_washerSafeStop washerSafeStop_off)

lemma phaseAlike_washerSafeStop:
  assumes "stepIndex a = stepIndex b"
  shows "phaseAlike (washerSafeStop a) (washerSafeStop b)"
  using assms by (simp add: phaseAlike_def washerSafeStop_off)

lemma debounceStart_reads:
  assumes "prevStartRaw a = prevStartRaw b" and "stablePressed a = stablePressed b"
    and "startPressedEvent a = startPressedEvent b"
    and "lastStartChangeMs a = lastStartChangeMs b"
  shows "stablePressed (debounceStart raw now a) = stablePressed (debounceStart raw now b)"
    and "startPressedEvent (debounceStart raw now a) = startPressedEvent (debounceStart raw now b)"
    and "lastStartChangeMs (debounceStart raw now a) = lastStartChangeMs (debounceStart raw now b)"
  using assms by (simp_all add: debounceStart_button)

lemma debounceStart_rest:
  assumes "\<not> prevStartRaw a" and "\<not> stablePressed a"
  shows "\<not> stablePressed (debounceStart raw now a)"
    and "startPressedEvent (debounceStart raw now a) = startPressedEvent a"
    and "raw \<Longrightarrow> lastStartChangeMs (debounceStart raw now a) = now"
  using assms by (simp_all add: debounceStart_button)

lemma buttonAlike_debounce:
  assumes "buttonAlike a b"
  shows "buttonAlike (debounceStart raw now a) (debounceStart raw now b)"
proof (cases "lastStartChangeMs a = lastStartChangeMs b")
  case True
  from debounceStart_reads [OF buttonAlikeD [OF assms, symmetric] True, of raw now]
  show ?thesis by (simp add: buttonAlike_def debounceStart_button(1))
next
  case False
  with assms have r: "\<not> prevStartRaw a" "\<not> stablePressed a" "\<not> prevStartRaw b"
    "\<not> stablePressed b" and e: "startPressedEvent a = startPressedEvent b"
    by (auto simp add: buttonAlike_def)
  from debounceStart_rest [OF r(1,2), of raw now] debounceStart_rest [OF r(3,4), of raw now] e
  show ?thesis by (cases raw) (simp_all add: buttonAlike_def debounceStart_button(1))
qed

lemma resumeAlike_washerResume:
  assumes "resumeAlike a b"
  shows "resumeAlike (washerResume i a) (washerResume i b)"
proof (cases "safeScreenShown a")
  case True
  with resumeAlikeD [OF assms] have s: "safeScreenShown b" and bt: "buttonAlike a b"
    by simp_all
  have "buttonAlike (a\<lparr>safeScreenShown := False\<rparr>) (b\<lparr>safeScreenShown := False\<rparr>)"
    by (rule buttonAlike_fields [OF bt]) (simp_all add: buttonAlikeD [OF bt])
  then have "resumeAlike (enterState IDLE (nowMs i) (nowUs i) (a\<lparr>safeScreenShown := False\<rparr>))
      (enterState IDLE (nowMs i) (nowUs i) (b\<lparr>safeScreenShown := False\<rparr>))"
    by (rule resumeAlike_enterState) simp
  with True s show ?thesis by (simp add: washerResume_def)
next
  case False
  with resumeAlikeD(1) [OF assms] have "\<not> safeScreenShown b" by simp
  with False assms show ?thesis by (simp add: washerResume_def)
qed

lemma phaseAlike_washerResume:
  assumes "resumeAlike a b" and "phaseAlike a b"
  shows "phaseAlike (washerResume i a) (washerResume i b)"
proof -
  note s = resumeAlikeD(1) [OF assms(1)]
  from assms(2) have "phaseAlike (a\<lparr>safeScreenShown := False\<rparr>) (b\<lparr>safeScreenShown := False\<rparr>)"
    by (simp add: phaseAlike_def obs_defs)
  then have "phaseAlike (enterState IDLE (nowMs i) (nowUs i) (a\<lparr>safeScreenShown := False\<rparr>))
      (enterState IDLE (nowMs i) (nowUs i) (b\<lparr>safeScreenShown := False\<rparr>))"
    by (rule phaseAlike_enterState)
  with assms(2) s show ?thesis by (simp add: washerResume_def)
qed

lemma timersAlike_scan [simp]:
  "timersAlike (scanStartButton km ms a) (scanStartButton km ms b) = timersAlike a b"
  by (simp add: timersAlike_def)

lemma stageView_scan [simp]: "stageView (scanStartButton km ms a) = stageView a"
  by (simp add: stageView_def)

lemma resumeAlike_scan:
  assumes "resumeAlike a b"
  shows "resumeAlike (scanStartButton km ms a) (scanStartButton km ms b)"
proof (rule resumeAlikeI)
  note d = resumeAlikeD [OF assms]
  show "buttonAlike (scanStartButton km ms a) (scanStartButton km ms b)"
    using buttonAlike_debounce [OF d(3), of "km 0 0" ms]
    unfolding buttonAlike_def scanStartButton_debounce .
  show "safeScreenShown (scanStartButton km ms a) = safeScreenShown (scanStartButton km ms b)"
    using d(1) by simp
  show "stageView (scanStartButton km ms a) = stageView (scanStartButton km ms b)"
    using d(2) by simp
  show "timersAlike (scanStartButton km ms a) (scanStartButton km ms b)"
    if "\<not> safeScreenShown (scanStartButton km ms a)"
    using that d(4) by simp
qed

lemma phaseAlike_scan:
  assumes "phaseAlike a b"
  shows "phaseAlike (scanStartButton km ms a) (scanStartButton km ms b)"
  using assms by (simp add: phaseAlike_def)


lemma updateStepper_lastStepUs:
  "lastStepUs (updateStepper us s) =
     (if stepperMode s = STEPPER_STOP \<or> us - lastStepUs s < stepIntervalUs s
      then lastStepUs s else us)"
  by (simp add: updateStepper_def stepAdvance_def Let_def)

lemma stageView_updateStepper [simp]: "stageView (updateStepper us a) = stageView a"
  by (simp add: stageView_def)

lemma timersAlike_updateStepper:
  assumes "timersAlike a b" and "stepperMode b = stepperMode a"
    and "currentState b = currentState a"
  shows "timersAlike (updateStepper us a) (updateStepper us b)"
  using assms by (auto simp add: timersAlike_def updateStepper_lastStepUs)

lemma resumeAlike_updateStepper:
  assumes "resumeAlike a b" and "\<not> safeScreenShown a"
  shows "resumeAlike (updateStepper us a) (updateStepper us b)"
proof (rule resumeAlikeI)
  note d = resumeAlikeD [OF assms(1)]
  show "buttonAlike (updateStepper us a) (updateStepper us b)"
    by (rule buttonAlike_fields [OF d(3)]) (simp_all add: buttonAlikeD [OF d(3)])
  show "safeScreenShown (updateStepper us a) = safeScreenShown (updateStepper us b)"
    using d(1) by simp
  show "stageView (updateStepper us a) = stageView (updateStepper us b)"
    using d(2) by simp
  show "timersAlike (updateStepper us a) (updateStepper us b)"
    by (rule timersAlike_updateStepper [OF d(4) [OF assms(2)] stageViewD(4) [OF d(2)]
          stageViewD(1) [OF d(2)]])
qed

lemma stepAdvance_phase:
  "stepIndex (stepAdvance us s) =
     (if stepperMode s = STEPPER_CW then (stepIndex s + 1) AND 3
      else if stepperMode s = STEPPER_CCW then (stepIndex s + 3) AND 3 else stepIndex s)"
  by (simp add: stepAdvance_def Let_def)

lemma applyStepperStep_coils:
  "unat x < 4 \<Longrightarrow> coils (applyStepperStep x s) = stepSeq ! unat x"
proof -
  assume a: "unat x < 4"
  then have "unat x = 0 \<or> unat x = 1 \<or> unat x = 2 \<or> unat x = 3" by arith
  then have "[stepSeq ! unat x ! 0, stepSeq ! unat x ! Suc 0, stepSeq ! unat x ! 2,
      stepSeq ! unat x ! 3] = stepSeq ! unat x"
    by (auto simp add: stepSeq_def)
  with a show ?thesis
    by (simp add: applyStepperStep_def Let_def digitalWrite_def coils_def pin_defs)
qed

lemma applyStepperStep_coils_keep:
  "\<not> unat x < 4 \<Longrightarrow> coils (applyStepperStep x s) = coils s"
  by (simp add: applyStepperStep_def)

lemma coils_upd:
  "coils (s\<lparr>lastStepUs := u, stepIndex := y\<rparr>) = coils s"
  "coils (s\<lparr>lastStepUs := u\<rparr>) = coils s"
  by (simp_all add: coils_def)

lemma applyStepperStep_coils_alike:
  assumes "coils a = coils b"
  shows "coils (applyStepperStep x a) = coils (applyStepperStep x b)"
  using assms
  by (cases "unat x < 4") (simp_all add: applyStepperStep_coils applyStepperStep_coils_keep)

lemma stepAdvance_coils:
  assumes "stepIndex a = stepIndex b" and "stepperMode a = stepperMode b" and "coils a = coils b"
  shows "coils (stepAdvance us a) = coils (stepAdvance us b)"
proof -
  have k: "coils (applyStepperStep x (a\<lparr>lastStepUs := us, stepIndex := y\<rparr>)) =
      coils (applyStepperStep x (b\<lparr>lastStepUs := us, stepIndex := y\<rparr>))" for x y
    by (rule applyStepperStep_coils_alike) (simp add: coils_upd assms(3))
  have k': "coils (applyStepperStep x (a\<lparr>lastStepUs := us\<rparr>)) =
      coils (applyStepperStep x (b\<lparr>lastStepUs := us\<rparr>))" for x
    by (rule applyStepperStep_coils_alike) (simp add: coils_upd assms(3))
  from assms(1,2) show ?thesis
    by (simp add: stepAdvance_def Let_def k k')
qed

lemma phaseAlike_updateStepper:
  assumes "resumeAlike a b" and "\<not> safeScreenShown a" and "phaseAlike a b"
  shows "phaseAlike (updateStepper us a) (updateStepper us b)"
proof -
  note d = resumeAlikeD [OF assms(1)]
  note v = stageViewD [OF d(2)]
  from assms(3) have p: "stepIndex a = stepIndex b" "coils a = coils b"
    by (simp_all add: phaseAlike_def)
  show ?thesis
  proof (cases "stepperMode a = STEPPER_STOP")
    case True
    with v(4) assms(3) show ?thesis by (simp add: updateStepper_def)
  next
    case False
    with d(4) [OF assms(2)] have t: "lastStepUs b = lastStepUs a" "stepIntervalUs b = stepIntervalUs a"
      by (simp_all add: timersAlike_def)
    from stepAdvance_coils [OF p(1) v(4) [symmetric] p(2), of us] p(1) v(4)
    have "phaseAlike (stepAdvance us a) (stepAdvance us b)"
      by (simp add: phaseAlike_def stepAdvance_phase)
    with False v(4) t assms(3) show ?thesis by (simp add: updateStepper_def)
  qed
qed


lemma alike_entryAlike: "alike c a b \<Longrightarrow> entryAlike c a b"
  by (simp add: alike_def entryAlike_def resumeAlike_def)

lemma alike_enterState:
  assumes "entryAlike c a b"
  shows "alike c (enterState st ms us a) (enterState st ms us b)"
  using assms
  by (simp add: alike_def entryAlike_def resumeAlike_enterState phaseAlike_enterState)

lemma entryAlike_pre:
  assumes "entryAlike c a b"
  shows "entryAlike c (relayOff p a) (relayOff p b)"
    and "entryAlike c (stepperStop a) (stepperStop b)"
    and "entryAlike c (stepperStop (a\<lparr>stepIntervalUs := v\<rparr>)) (stepperStop (b\<lparr>stepIntervalUs := v\<rparr>))"
    and "entryAlike c (a\<lparr>startPressedEvent := False\<rparr>) (b\<lparr>startPressedEvent := False\<rparr>)"
proof -
  from assms have bt: "buttonAlike a b" and s: "safeScreenShown a = safeScreenShown b"
    and p: "c \<Longrightarrow> stepIndex a = stepIndex b" "c \<Longrightarrow> coils a = coils b"
    by (simp_all add: entryAlike_def phaseAlike_def)
  have b1: "buttonAlike (relayOff p a) (relayOff p b)"
    by (rule buttonAlike_fields [OF bt]) (simp_all add: buttonAlikeD [OF bt] out_defs)
  have b2: "buttonAlike (stepperStop a) (stepperStop b)"
    by (rule buttonAlike_fields [OF bt]) (simp_all add: buttonAlikeD [OF bt] out_defs)
  have b3: "buttonAlike (stepperStop (a\<lparr>stepIntervalUs := v\<rparr>)) (stepperStop (b\<lparr>stepIntervalUs := v\<rparr>))"
    by (rule buttonAlike_fields [OF bt]) (simp_all add: buttonAlikeD [OF bt] out_defs)
  have b4: "buttonAlike (a\<lparr>startPressedEvent := False\<rparr>) (b\<lparr>startPressedEvent := False\<rparr>)"
    by (rule buttonAlike_fields [OF bt]) (simp_all add: buttonAlikeD [OF bt])
  have c1: "coils (relayOff p a) = coils (relayOff p b)" if "c" "p \<noteq> 9" "p \<noteq> 10" "p \<noteq> 11" "p \<noteq> 12"
    using p(2) that by (simp add: out_defs obs_defs pin_defs)
  show "entryAlike c (stepperStop a) (stepperStop b)"
    using b2 s p by (simp add: entryAlike_def phaseAlike_def out_defs obs_defs pin_defs)
  show "entryAlike c (stepperStop (a\<lparr>stepIntervalUs := v\<rparr>)) (stepperStop (b\<lparr>stepIntervalUs := v\<rparr>))"
    using b3 s p by (simp add: entryAlike_def phaseAlike_def out_defs obs_defs pin_defs)
  show "entryAlike c (a\<lparr>startPressedEvent := False\<rparr>) (b\<lparr>startPressedEvent := False\<rparr>)"
    using b4 s p by (simp add: entryAlike_def phaseAlike_def obs_defs)
  show "entryAlike c (relayOff p a) (relayOff p b)"
    using b1 s p by (auto simp add: entryAlike_def phaseAlike_def out_defs obs_defs)
qed

lemma alike_lcdWrite4:
  assumes "alike c a b"
  shows "alike c (lcdWrite4 ms l0 l1 l2 l3 a) (lcdWrite4 ms k0 k1 k2 k3 b)"
proof -
  from assms have r: "resumeAlike a b" and p: "c \<Longrightarrow> phaseAlike a b"
    by (simp_all add: alike_def)
  note d = resumeAlikeD [OF r]
  have "resumeAlike (lcdWrite4 ms l0 l1 l2 l3 a) (lcdWrite4 ms k0 k1 k2 k3 b)"
  proof (rule resumeAlikeI)
    show "buttonAlike (lcdWrite4 ms l0 l1 l2 l3 a) (lcdWrite4 ms k0 k1 k2 k3 b)"
      by (rule buttonAlike_fields [OF d(3)]) (simp_all add: buttonAlikeD [OF d(3)])
    show "stageView (lcdWrite4 ms l0 l1 l2 l3 a) = stageView (lcdWrite4 ms k0 k1 k2 k3 b)"
      using d(2) by (simp add: stageView_def obs_defs)
    show "timersAlike (lcdWrite4 ms l0 l1 l2 l3 a) (lcdWrite4 ms k0 k1 k2 k3 b)"
      if "\<not> safeScreenShown (lcdWrite4 ms l0 l1 l2 l3 a)"
      using that d(4) by (simp add: timersAlike_def)
  qed (use d(1) in simp)
  moreover have "phaseAlike (lcdWrite4 ms l0 l1 l2 l3 a) (lcdWrite4 ms k0 k1 k2 k3 b)" if "c"
    using p [OF that] by (simp add: phaseAlike_def obs_defs)
  ultimately show ?thesis by (simp add: alike_def)
qed

lemma alike_cancelToIdle:
  assumes "alike c a b"
  shows "alike c (cancelToIdle ms us a) (cancelToIdle ms us b)"
proof -
  from assms have r: "resumeAlike a b" by (simp add: alike_def)
  note e = buttonAlikeD(3) [OF resumeAlikeD(3) [OF r]]
  show ?thesis
  proof (cases "startPressedEvent a")
    case True
    from alike_enterState [OF entryAlike_pre(4) [OF alike_entryAlike [OF assms]], of IDLE ms us]
      True e
    show ?thesis by (simp add: cancelToIdle_def)
  next
    case False
    with e assms show ?thesis by (simp add: cancelToIdle_def)
  qed
qed

lemma alike_timeout:
  assumes "alike c a b" and "\<not> safeScreenShown a" and "entryAlike c a' b'"
  shows "alike c (if B \<le> now - stateStartMs a then enterState st now us a' else a)
                 (if B \<le> now - stateStartMs b then enterState st now us b' else b)"
proof -
  from assms(1) have r: "resumeAlike a b" by (simp add: alike_def)
  from resumeAlikeD(4) [OF r assms(2)] have t: "stateStartMs b = stateStartMs a"
    by (simp add: timersAlike_def)
  from alike_enterState [OF assms(3), of st now us] assms(1) show ?thesis
    by (simp add: t)
qed


lemma washAgitate_more [simp]:
  "stepperMode (washAgitate now us s) =
     (if washForward s \<and> WASH_FORWARD_MS \<le> now - washPhaseStartMs s then STEPPER_CCW
      else if \<not> washForward s \<and> WASH_REVERSE_MS \<le> now - washPhaseStartMs s then STEPPER_CW
      else stepperMode s)"
  "lastStepUs (washAgitate now us s) =
     (if (washForward s \<and> WASH_FORWARD_MS \<le> now - washPhaseStartMs s) \<or>
         (\<not> washForward s \<and> WASH_REVERSE_MS \<le> now - washPhaseStartMs s)
      then us else lastStepUs s)"
  "washPhaseStartMs (washAgitate now us s) =
     (if (washForward s \<and> WASH_FORWARD_MS \<le> now - washPhaseStartMs s) \<or>
         (\<not> washForward s \<and> WASH_REVERSE_MS \<le> now - washPhaseStartMs s)
      then now else washPhaseStartMs s)"
  by (simp_all add: washAgitate_def Let_def stepperRun_def)

lemma alike_washAgitate:
  assumes "alike c a b" and "\<not> safeScreenShown a" and "currentState a = WASHING"
  shows "alike c (washAgitate now us a) (washAgitate now us b)"
proof -
  from assms(1) have r: "resumeAlike a b" and p: "c \<Longrightarrow> phaseAlike a b"
    by (simp_all add: alike_def)
  note d = resumeAlikeD [OF r]
  note v = stageViewD [OF d(2)]
  from d(4) [OF assms(2)] assms(3)
  have t: "stateStartMs b = stateStartMs a" "washForward b = washForward a"
    "washPhaseStartMs b = washPhaseStartMs a" "stepIntervalUs b = stepIntervalUs a"
    "stepperMode a \<noteq> STEPPER_STOP \<Longrightarrow> lastStepUs b = lastStepUs a"
    by (simp_all add: timersAlike_def)
  have "resumeAlike (washAgitate now us a) (washAgitate now us b)"
  proof (rule resumeAlikeI)
    show "buttonAlike (washAgitate now us a) (washAgitate now us b)"
      by (rule buttonAlike_fields [OF d(3)]) (simp_all add: buttonAlikeD [OF d(3)])
    show "stageView (washAgitate now us a) = stageView (washAgitate now us b)"
      using v by (simp add: stageView_def obs_defs t washAgitate_washForward)
    show "timersAlike (washAgitate now us a) (washAgitate now us b)"
      if "\<not> safeScreenShown (washAgitate now us a)"
      using t v assms(3) by (simp add: timersAlike_def washAgitate_washForward)
  qed (use d(1) in simp)
  moreover have "phaseAlike (washAgitate now us a) (washAgitate now us b)" if "c"
    using p [OF that] by (simp add: phaseAlike_def obs_defs)
  ultimately show ?thesis by (simp add: alike_def)
qed

lemma alike_washerDispatch:
  assumes "alike c a b" and "\<not> safeScreenShown a"
  shows "alike c (washerDispatch now us a) (washerDispatch now us b)"
proof -
  from assms(1) have r: "resumeAlike a b" by (simp add: alike_def)
  note d = resumeAlikeD [OF r]
  note v = stageViewD [OF d(2)]
  note e = buttonAlikeD(3) [OF d(3)]
  note en = alike_entryAlike [OF assms(1)]
  show ?thesis
  proof (cases "currentState a")
    case IDLE
    from alike_enterState [OF entryAlike_pre(4) [OF en], of FILLING now us] assms(1) IDLE v(1) e
    show ?thesis by (simp add: washerDispatch_def)
  next
    case FILLING
    let ?a = "lcdWrite4 now ''Cycle Running...'' ''FILLING water'' ''Inlet: ON'' ''State: FILLING'' a"
    let ?b = "lcdWrite4 now ''Cycle Running...'' ''FILLING water'' ''Inlet: ON'' ''State: FILLING'' b"
    have l: "alike c ?a ?b" by (rule alike_lcdWrite4 [OF assms(1)])
    have n: "\<not> safeScreenShown ?a" using assms(2) by simp
    from alike_cancelToIdle [OF alike_timeout [OF l n
          entryAlike_pre(1) [OF alike_entryAlike [OF l]]]] FILLING v(1)
    show ?thesis by (simp add: washerDispatch_def Let_def)
  next
    case WASHING
    let ?a1 = "washAgitate now us a"
    let ?b1 = "washAgitate now us b"
    have w: "alike c ?a1 ?b1" by (rule alike_washAgitate [OF assms WASHING])
    let ?a = "lcdWrite4 now ''Cycle Running...'' ''WASHING (drum)''
        (if washForward ?a1 then ''Direction: FWD'' else ''Direction: REV'') ''State: WASHING'' ?a1"
    let ?b = "lcdWrite4 now ''Cycle Running...'' ''WASHING (drum)''
        (if washForward ?b1 then ''Direction: FWD'' else ''Direction: REV'') ''State: WASHING'' ?b1"
    have l: "alike c ?a ?b" by (rule alike_lcdWrite4 [OF w])
    have n: "\<not> safeScreenShown ?a" using assms(2) by simp
    from alike_cancelToIdle [OF alike_timeout [OF l n
          entryAlike_pre(2) [OF alike_entryAlike [OF l]]]] WASHING v(1)
    show ?thesis by (simp add: washerDispatch_def Let_def)
  next
    case RINSING
    let ?a = "lcdWrite4 now ''Cycle Running...'' ''RINSING'' ''Drum: slow'' ''State: RINSING'' a"
    let ?b = "lcdWrite4 now ''Cycle Running...'' ''RINSING'' ''Drum: slow'' ''State: RINSING'' b"
    have l: "alike c ?a ?b" by (rule alike_lcdWrite4 [OF assms(1)])
    have n: "\<not> safeScreenShown ?a" using assms(2) by simp
    from alike_cancelToIdle [OF alike_timeout [OF l n alike_entryAlike [OF l]]] RINSING v(1)
    show ?thesis by (simp add: washerDispatch_def Let_def)
  next
    case SPINNING
    let ?a = "lcdWrite4 now ''Cycle Running...'' ''SPINNING'' ''Drum: fast'' ''State: SPINNING'' a"
    let ?b = "lcdWrite4 now ''Cycle Running...'' ''SPINNING'' ''Drum: fast'' ''State: SPINNING'' b"
    have l: "alike c ?a ?b" by (rule alike_lcdWrite4 [OF assms(1)])
    have n: "\<not> safeScreenShown ?a" using assms(2) by simp
    from alike_cancelToIdle [OF alike_timeout [OF l n
          entryAlike_pre(3) [OF alike_entryAlike [OF l]]]] SPINNING v(1)
    show ?thesis by (simp add: washerDispatch_def Let_def)
  next
    case DRAINING
    let ?a = "lcdWrite4 now ''Cycle Running...'' ''DRAINING water'' ''Drain: ON'' ''State: DRAINING'' a"
    let ?b = "lcdWrite4 now ''Cycle Running...'' ''DRAINING water'' ''Drain: ON'' ''State: DRAINING'' b"
    have l: "alike c ?a ?b" by (rule alike_lcdWrite4 [OF assms(1)])
    have n: "\<not> safeScreenShown ?a" using assms(2) by simp
    from alike_cancelToIdle [OF alike_timeout [OF l n
          entryAlike_pre(1) [OF alike_entryAlike [OF l]]]] DRAINING v(1)
    show ?thesis by (simp add: washerDispatch_def Let_def)
  next
    case FINISHED
    let ?a = "lcdWrite4 now ''CYCLE COMPLETE'' ''Remove laundry'' ''Press START to'' ''restart / idle'' a"
    let ?b = "lcdWrite4 now ''CYCLE COMPLETE'' ''Remove laundry'' ''Press START to'' ''restart / idle'' b"
    have l: "alike c ?a ?b" by (rule alike_lcdWrite4 [OF assms(1)])
    have k: "alike c (cancelToIdle now us ?a) (cancelToIdle now us ?b)"
      by (rule alike_cancelToIdle [OF l])
    have n: "\<not> safeScreenShown (cancelToIdle now us ?a)" using assms(2) by simp
    from alike_timeout [OF k n alike_entryAlike [OF k]] FINISHED v(1)
    show ?thesis by (simp add: washerDispatch_def Let_def)
  qed
qed

lemma alike_loop:
  assumes "alike c a b"
  shows "alike c (loop i a) (loop i b)"
proof (cases "armed i")
  case False
  from assms have r: "resumeAlike a b" and p: "c \<Longrightarrow> phaseAlike a b"
    by (simp_all add: alike_def)
  from p have "c \<Longrightarrow> stepIndex a = stepIndex b" by (simp add: phaseAlike_def)
  with resumeAlike_washerSafeStop [OF resumeAlikeD(3) [OF r]] False
  show ?thesis by (simp add: loop_def alike_def phaseAlike_washerSafeStop)
next
  case True
  from assms have r: "resumeAlike a b" and p: "c \<Longrightarrow> phaseAlike a b"
    by (simp_all add: alike_def)
  let ?a1 = "washerResume i a" and ?b1 = "washerResume i b"
  have r1: "resumeAlike ?a1 ?b1" by (rule resumeAlike_washerResume [OF r])
  have p1: "phaseAlike ?a1 ?b1" if "c" by (rule phaseAlike_washerResume [OF r p [OF that]])
  let ?a2 = "scanStartButton (keys i) (nowMs i) ?a1" and ?b2 = "scanStartButton (keys i) (nowMs i) ?b1"
  have r2: "resumeAlike ?a2 ?b2" by (rule resumeAlike_scan [OF r1])
  have p2: "phaseAlike ?a2 ?b2" if "c" by (rule phaseAlike_scan [OF p1 [OF that]])
  have n2: "\<not> safeScreenShown ?a2" by simp
  have r3: "resumeAlike (washerScan i a) (washerScan i b)"
    unfolding washerScan_def by (rule resumeAlike_updateStepper [OF r2 n2])
  have p3: "phaseAlike (washerScan i a) (washerScan i b)" if "c"
    unfolding washerScan_def by (rule phaseAlike_updateStepper [OF r2 n2 p2 [OF that]])
  from r3 p3 have "alike c (washerScan i a) (washerScan i b)" by (simp add: alike_def)
  from alike_washerDispatch [OF this, of "nowMs i" "nowUs i"] True
  show ?thesis by (simp add: loop_def washerLoop_def)
qed

lemma alike_run:
  assumes "alike c a b"
  shows "alike c (run a is) (run b is)"
  using assms by (induction "is" arbitrary: a b) (simp_all add: alike_loop)


lemma setupWasher_button:
  "\<not> prevStartRaw (setupWasher ms us powerOn)" "\<not> stablePressed (setupWasher ms us powerOn)"
  "\<not> startPressedEvent (setupWasher ms us powerOn)" "stepIndex (setupWasher ms us powerOn) = 0"
  by (simp_all add: setupWasher_def Let_def powerOn_def upt4 out_defs)

lemma washerScan_interval [simp]:
  "\<not> safeScreenShown s \<Longrightarrow> stepIntervalUs (washerScan i s) = stepIntervalUs s"
  by (simp add: washerScan_def washerResume_def)

lemma dispatch_event_timeout_eq:
  assumes "startPressedEvent m"
  shows "currentState m = FILLING \<Longrightarrow> FILL_MS \<le> now - stateStartMs m \<Longrightarrow>
           washerDispatch now us m =
             enterState IDLE now us
               ((enterState WASHING now us
                  (relayOff RELAY_INLET
                    (lcdWrite4 now ''Cycle Running...'' ''FILLING water'' ''Inlet: ON''
                       ''State: FILLING'' m)))\<lparr>startPressedEvent := False\<rparr>)"
    and "currentState m = WASHING \<Longrightarrow> WASH_MS \<le> now - stateStartMs m \<Longrightarrow>
           washerDispatch now us m =
             enterState IDLE now us
               ((enterState RINSING now us
                  (stepperStop
                    (lcdWrite4 now ''Cycle Running...'' ''WASHING (drum)''
                       (if washForward (washAgitate now us m) then ''Direction: FWD''
                        else ''Direction: REV'')
                       ''State: WASHING'' (washAgitate now us m))))\<lparr>startPressedEvent := False\<rparr>)"
    and "currentState m = RINSING \<Longrightarrow> RINSE_MS \<le> now - stateStartMs m \<Longrightarrow>
           washerDispatch now us m =
             enterState IDLE now us
               ((enterState SPINNING now us
                  (lcdWrite4 now ''Cycle Running...'' ''RINSING'' ''Drum: slow''
                     ''State: RINSING'' m))\<lparr>startPressedEvent := False\<rparr>)"
    and "currentState m = SPINNING \<Longrightarrow> SPIN_MS \<le> now - stateStartMs m \<Longrightarrow>
           washerDispatch now us m =
             enterState IDLE now us
               ((enterState DRAINING now us
                  (stepperStop
                    ((lcdWrite4 now ''Cycle Running...'' ''SPINNING'' ''Drum: fast''
                        ''State: SPINNING'' m)\<lparr>stepIntervalUs := 1200\<rparr>)))\<lparr>startPressedEvent := False\<rparr>)"
    and "currentState m = DRAINING \<Longrightarrow> DRAIN_MS \<le> now - stateStartMs m \<Longrightarrow>
           washerDispatch now us m =
             enterState IDLE now us
               ((enterState FINISHED now us
                  (relayOff RELAY_DRAIN
                    (lcdWrite4 now ''Cycle Running...'' ''DRAINING water'' ''Drain: ON''
                       ''State: DRAINING'' m)))\<lparr>startPressedEvent := False\<rparr>)"
proof -
  have k: "startPressedEvent x \<Longrightarrow>
      cancelToIdle now us (enterState st now us x) =
        enterState IDLE now us ((enterState st now us x)\<lparr>startPressedEvent := False\<rparr>)" for x st
    by (rule cancel_after_enter)
  have e: "startPressedEvent (relayOff p (lcdWrite4 now l0 l1 l2 l3 m))"
    "startPressedEvent (lcdWrite4 now l0 l1 l2 l3 m)"
    "startPressedEvent (stepperStop (lcdWrite4 now l0 l1 l2 l3 (washAgitate now us m)))"
    "startPressedEvent (stepperStop ((lcdWrite4 now l0 l1 l2 l3 m)\<lparr>stepIntervalUs := v\<rparr>))"
    for p l0 l1 l2 l3 v
    using assms by (simp_all add: out_defs)
  show "currentState m = FILLING \<Longrightarrow> FILL_MS \<le> now - stateStartMs m \<Longrightarrow>
           washerDispatch now us m =
             enterState IDLE now us
               ((enterState WASHING now us
                  (relayOff RELAY_INLET
                    (lcdWrite4 now ''Cycle Running...'' ''FILLING water'' ''Inlet: ON''
                       ''State: FILLING'' m)))\<lparr>startPressedEvent := False\<rparr>)"
    by (simp only: washerDispatch_def Let_def WashingState.case lcdWrite4_static if_True
        k [OF e(1)])
  show "currentState m = WASHING \<Longrightarrow> WASH_MS \<le> now - stateStartMs m \<Longrightarrow>
           washerDispatch now us m =
             enterState IDLE now us
               ((enterState RINSING now us
                  (stepperStop
                    (lcdWrite4 now ''Cycle Running...'' ''WASHING (drum)''
                       (if washForward (washAgitate now us m) then ''Direction: FWD''
                        else ''Direction: REV'')
                       ''State: WASHING'' (washAgitate now us m))))\<lparr>startPressedEvent := False\<rparr>)"
    by (simp only: washerDispatch_def Let_def WashingState.case lcdWrite4_static
        washAgitate_static if_True k [OF e(3)])
  show "currentState m = RINSING \<Longrightarrow> RINSE_MS \<le> now - stateStartMs m \<Longrightarrow>
           washerDispatch now us m =
             enterState IDLE now us
               ((enterState SPINNING now us
                  (lcdWrite4 now ''Cycle Running...'' ''RINSING'' ''Drum: slow''
                     ''State: RINSING'' m))\<lparr>startPressedEvent := False\<rparr>)"
    by (simp only: washerDispatch_def Let_def WashingState.case lcdWrite4_static if_True
        k [OF e(2)])
  show "currentState m = SPINNING \<Longrightarrow> SPIN_MS \<le> now - stateStartMs m \<Longrightarrow>
           washerDispatch now us m =
             enterState IDLE now us
               ((enterState DRAINING now us
                  (stepperStop
                    ((lcdWrite4 now ''Cycle Running...'' ''SPINNING'' ''Drum: fast''
                        ''State: SPINNING'' m)\<lparr>stepIntervalUs := 1200\<rparr>)))\<lparr>startPressedEvent := False\<rparr>)"
    by (simp only: washerDispatch_def Let_def WashingState.case lcdWrite4_static if_True
        k [OF e(4)])
  show "currentState m = DRAINING \<Longrightarrow> DRAIN_MS \<le> now - stateStartMs m \<Longrightarrow>
           washerDispatch now us m =
             enterState IDLE now us
               ((enterState FINISHED now us
                  (relayOff RELAY_DRAIN
                    (lcdWrite4 now ''Cycle Running...'' ''DRAINING water'' ''Drain: ON''
                       ''State: DRAINING'' m)))\<lparr>startPressedEvent := False\<rparr>)"
    by (simp only: washerDispatch_def Let_def WashingState.case lcdWrite4_static if_True
        k [OF e(1)])
qed


section \<open>The stepper sequencer\<close>

text \<open>
  C4. \<open>updateStepper\<close> does nothing while the mode is \<open>STEPPER_STOP\<close>, and nothing
  while \<open>nowUs - lastStepUs\<close> (modulo \<open>2^32\<close>) is below the interval. Otherwise it makes
  one step: the phase index goes up by one modulo 4 clockwise and down by one modulo 4
  counter-clockwise, the row of \<open>stepSeq\<close> for the new index is written to the four coil
  pins, and \<open>lastStepUs\<close> becomes the time of the call; mode and interval stay. A further
  call less than one interval after a step changes nothing: the step rate is bound by the
  interval, not by the number of calls.
\<close>

theorem updateStepper_interval_bound:
  "(stepperMode s = STEPPER_STOP \<longrightarrow> updateStepper us s = s) \<and>
   (us - lastStepUs s < stepIntervalUs s \<longrightarrow> updateStepper us s = s) \<and>
   (stepperMode s = STEPPER_CW \<and> stepIntervalUs s \<le> us - lastStepUs s \<longrightarrow>
      unat (stepIndex (updateStepper us s)) = (unat (stepIndex s) + 1) mod 4) \<and>
   (stepperMode s = STEPPER_CCW \<and> stepIntervalUs s \<le> us - lastStepUs s \<longrightarrow>
      int (unat (stepIndex (updateStepper us s))) = (int (unat (stepIndex s)) - 1) mod 4) \<and>
   (stepperMode s \<noteq> STEPPER_STOP \<and> stepIntervalUs s \<le> us - lastStepUs s \<longrightarrow>
      lastStepUs (updateStepper us s) = us \<and>
      coils (updateStepper us s) = stepSeq ! unat (stepIndex (updateStepper us s)) \<and>
      stepperMode (updateStepper us s) = stepperMode s \<and>
      stepIntervalUs (updateStepper us s) = stepIntervalUs s \<and>
      (\<forall>us'. us' - us < stepIntervalUs s \<longrightarrow>
         updateStepper us' (updateStepper us s) = updateStepper us s))"
proof -
  have stop: "stepperMode s = STEPPER_STOP \<longrightarrow> updateStepper us s = s"
    by (simp add: updateStepper_def)
  have early: "us - lastStepUs s < stepIntervalUs s \<longrightarrow> updateStepper us s = s"
    by (simp add: updateStepper_def)
  have lt4: "unat ((x + 1) AND 3) < 4" "unat ((x + 3) AND 3) < 4" for x :: u8
    by (simp_all add: step_cw step_ccw)
  have cw: "stepperMode s = STEPPER_CW \<and> stepIntervalUs s \<le> us - lastStepUs s \<longrightarrow>
      unat (stepIndex (updateStepper us s)) = (unat (stepIndex s) + 1) mod 4"
    by (simp add: updateStepper_def stepAdvance_def applyStepperStep_def Let_def
        digitalWrite_def lt4 step_cw not_less [symmetric])
  have ccw: "stepperMode s = STEPPER_CCW \<and> stepIntervalUs s \<le> us - lastStepUs s \<longrightarrow>
      int (unat (stepIndex (updateStepper us s))) = (int (unat (stepIndex s)) - 1) mod 4"
    by (simp add: updateStepper_def stepAdvance_def applyStepperStep_def Let_def
        digitalWrite_def lt4 step_ccw_int not_less [symmetric])
  have row4: "n < 4 \<Longrightarrow> [stepSeq ! n ! 0, stepSeq ! n ! Suc 0, stepSeq ! n ! 2, stepSeq ! n ! 3] = stepSeq ! n"
    for n :: nat
  proof -
    assume "n < 4"
    then have "n = 0 \<or> n = 1 \<or> n = 2 \<or> n = 3" by arith
    then show ?thesis by (auto simp add: stepSeq_def)
  qed
  have adv: "stepperMode s \<noteq> STEPPER_STOP \<Longrightarrow>
      lastStepUs (stepAdvance us s) = us \<and>
      coils (stepAdvance us s) = stepSeq ! unat (stepIndex (stepAdvance us s)) \<and>
      stepperMode (stepAdvance us s) = stepperMode s \<and>
      stepIntervalUs (stepAdvance us s) = stepIntervalUs s"
    by (cases "stepperMode s")
      (simp_all add: stepAdvance_def applyStepperStep_def Let_def digitalWrite_def lt4
        coils_def pin_defs row4)
  have moved: "stepperMode s \<noteq> STEPPER_STOP \<and> stepIntervalUs s \<le> us - lastStepUs s \<longrightarrow>
      lastStepUs (updateStepper us s) = us \<and>
      coils (updateStepper us s) = stepSeq ! unat (stepIndex (updateStepper us s)) \<and>
      stepperMode (updateStepper us s) = stepperMode s \<and>
      stepIntervalUs (updateStepper us s) = stepIntervalUs s \<and>
      (\<forall>us'. us' - us < stepIntervalUs s \<longrightarrow>
         updateStepper us' (updateStepper us s) = updateStepper us s)"
  proof (intro impI, elim conjE)
    assume m: "stepperMode s \<noteq> STEPPER_STOP" and d: "stepIntervalUs s \<le> us - lastStepUs s"
    from m d have u: "updateStepper us s = stepAdvance us s"
      by (simp add: updateStepper_def not_less [symmetric])
    from adv [OF m] have a: "lastStepUs (stepAdvance us s) = us"
      "stepIntervalUs (stepAdvance us s) = stepIntervalUs s" by simp_all
    have "\<forall>us'. us' - us < stepIntervalUs s \<longrightarrow>
        updateStepper us' (stepAdvance us s) = stepAdvance us s"
      by (simp add: updateStepper_def [of _ "stepAdvance us s"] a)
    with adv [OF m] show "lastStepUs (updateStepper us s) = us \<and>
      coils (updateStepper us s) = stepSeq ! unat (stepIndex (updateStepper us s)) \<and>
      stepperMode (updateStepper us s) = stepperMode s \<and>
      stepIntervalUs (updateStepper us s) = stepIntervalUs s \<and>
      (\<forall>us'. us' - us < stepIntervalUs s \<longrightarrow>
         updateStepper us' (updateStepper us s) = updateStepper us s)"
      unfolding u by simp
  qed
  from stop early cw ccw moved show ?thesis by (intro conjI)
qed

theorem updateStepper_interval_bound_witness:
  "stepperMode powerOn = STEPPER_STOP \<and> updateStepper 5000 powerOn = powerOn \<and>
   1199 - lastStepUs (stepperRun STEPPER_CW 0 powerOn)
     < stepIntervalUs (stepperRun STEPPER_CW 0 powerOn) \<and>
   updateStepper 1199 (stepperRun STEPPER_CW 0 powerOn) = stepperRun STEPPER_CW 0 powerOn \<and>
   stepperMode (stepperRun STEPPER_CW 0 powerOn) = STEPPER_CW \<and>
   stepIntervalUs (stepperRun STEPPER_CW 0 powerOn)
     \<le> 1200 - lastStepUs (stepperRun STEPPER_CW 0 powerOn) \<and>
   unat (stepIndex (updateStepper 1200 (stepperRun STEPPER_CW 0 powerOn))) = 1 \<and>
   lastStepUs (updateStepper 1200 (stepperRun STEPPER_CW 0 powerOn)) = 1200 \<and>
   coils (updateStepper 1200 (stepperRun STEPPER_CW 0 powerOn)) = [LOW, HIGH, HIGH, LOW] \<and>
   updateStepper 2399 (updateStepper 1200 (stepperRun STEPPER_CW 0 powerOn))
     = updateStepper 1200 (stepperRun STEPPER_CW 0 powerOn) \<and>
   stepperMode (stepperRun STEPPER_CCW 0 powerOn) = STEPPER_CCW \<and>
   int (unat (stepIndex (updateStepper 1200 (stepperRun STEPPER_CCW 0 powerOn)))) = 3"
proof -
  let ?cw = "stepperRun STEPPER_CW 0 powerOn"
  let ?ccw = "stepperRun STEPPER_CCW 0 powerOn"
  have f: "stepperMode powerOn = STEPPER_STOP" "stepperMode ?cw = STEPPER_CW"
    "stepperMode ?ccw = STEPPER_CCW" "lastStepUs ?cw = 0" "stepIntervalUs ?cw = 1200"
    "lastStepUs ?ccw = 0" "stepIntervalUs ?ccw = 1200" "stepIndex ?cw = 0" "stepIndex ?ccw = 0"
    by (simp_all add: powerOn_def stepperRun_def)
  have a: "updateStepper 5000 powerOn = powerOn"
    using updateStepper_interval_bound [of powerOn 5000] f by simp
  have b: "updateStepper 1199 ?cw = ?cw"
    using updateStepper_interval_bound [of ?cw 1199] f by simp
  have c: "unat (stepIndex (updateStepper 1200 ?cw)) = 1"
    "lastStepUs (updateStepper 1200 ?cw) = 1200"
    "coils (updateStepper 1200 ?cw) = stepSeq ! unat (stepIndex (updateStepper 1200 ?cw))"
    "\<forall>us'. us' - 1200 < 1200 \<longrightarrow>
       updateStepper us' (updateStepper 1200 ?cw) = updateStepper 1200 ?cw"
    using updateStepper_interval_bound [of ?cw 1200] f by simp_all
  from c(4) have d: "updateStepper 2399 (updateStepper 1200 ?cw) = updateStepper 1200 ?cw"
    by simp
  have e: "int (unat (stepIndex (updateStepper 1200 ?ccw))) = 3"
    using updateStepper_interval_bound [of ?ccw 1200] f by simp
  from c(1,3) have g: "coils (updateStepper 1200 ?cw) = [LOW, HIGH, HIGH, LOW]"
    by (simp add: stepSeq_def)
  from a b c(1,2) d e g f show ?thesis by simp
qed

section \<open>The safety gate\<close>

text \<open>
  C1. A pass of \<open>loop\<close> that finds the armed signal false ends with the inlet valve off,
  the drain valve off, the stepper in mode \<open>STEPPER_STOP\<close> with its four coil pins
  \<^verbatim>\<open>LOW\<close>, and the stage \<open>IDLE\<close>, whatever the state before it was; and after any
  further passes that find the signal false the same holds.
\<close>

theorem disarm_quiesces_same_tick:
  assumes "\<not> armed i" and "list_all (\<lambda>j. \<not> armed j) js"
  shows "quiesced (loop i s) \<and> quiesced (run s (i # js))"
proof
  from assms(1) show "quiesced (loop i s)"
    by (simp add: loop_def washerSafeStop_quiesced)
  from assms show "quiesced (run s (i # js))"
    by (intro run_disarmed_quiesced) simp_all
qed

theorem disarm_quiesces_same_tick_witness:
  "quiesced (loop \<lparr>armed = False, nowMs = 7000, nowUs = 7000000, keys = (\<lambda>c r. False)\<rparr>
      (enterState WASHING 6000 6000000 powerOn)) \<and>
   quiesced (run (enterState WASHING 6000 6000000 powerOn)
      [\<lparr>armed = False, nowMs = 7000, nowUs = 7000000, keys = (\<lambda>c r. False)\<rparr>,
       \<lparr>armed = False, nowMs = 7001, nowUs = 7001000, keys = (\<lambda>c r. True)\<rparr>])"
  using disarm_quiesces_same_tick
    [of "\<lparr>armed = False, nowMs = 7000, nowUs = 7000000, keys = (\<lambda>c r. False)\<rparr>"
        "[\<lparr>armed = False, nowMs = 7001, nowUs = 7001000, keys = (\<lambda>c r. True)\<rparr>]"
        "enterState WASHING 6000 6000000 powerOn"]
  by simp

section \<open>Entry actions\<close>

text \<open>
  C5. Whatever the state \<open>enterState st\<close> is called in, the outputs right after it are
  those of the table of section 4.4 for \<open>st\<close>: the inlet valve is open exactly in
  \<open>FILLING\<close>, the drain valve exactly in \<open>DRAINING\<close>, the stepper runs clockwise in
  \<open>WASHING\<close> (interval 1200), \<open>RINSING\<close> (1400, a longer interval: slower) and \<open>SPINNING\<close>
  (800, a shorter interval: faster) and is stopped, with its four coil pins \<^verbatim>\<open>LOW\<close>, in
  every other stage. So the outputs depend on \<open>st\<close> alone, and no stage leaves a valve of
  the previous stage open.
\<close>

theorem enterState_matches_stageTable:
  "outputsOf (enterState st ms us s) = stageTable st \<and>
   outputsOf (enterState st ms us s) = outputsOf (enterState st ms' us' s') \<and>
   currentState (enterState st ms us s) = st \<and>
   (if stepperMode (enterState st ms us s) = STEPPER_STOP
    then coils (enterState st ms us s) = [LOW, LOW, LOW, LOW]
    else st = WASHING \<or> st = RINSING \<or> st = SPINNING) \<and>
   stepIntervalUs (enterState SPINNING ms us s) < stepIntervalUs (enterState WASHING ms us s) \<and>
   stepIntervalUs (enterState WASHING ms us s) < stepIntervalUs (enterState RINSING ms us s)"
proof -
  have tab: "outputsOf (enterState st m u x) = stageTable st" for m u x
    by (cases st) (simp_all add: outputsOf_def enterState_interval)
  have "outputsOf (enterState st ms us s) = outputsOf (enterState st ms' us' s')"
    by (simp only: tab)
  moreover have "if stepperMode (enterState st ms us s) = STEPPER_STOP
    then coils (enterState st ms us s) = [LOW, LOW, LOW, LOW]
    else st = WASHING \<or> st = RINSING \<or> st = SPINNING"
    by (cases st) (simp_all add: enterState_coils_stopped)
  moreover have "stepIntervalUs (enterState SPINNING ms us s) < stepIntervalUs (enterState WASHING ms us s)"
    "stepIntervalUs (enterState WASHING ms us s) < stepIntervalUs (enterState RINSING ms us s)"
    by (simp_all add: enterState_interval)
  ultimately show ?thesis using tab by simp
qed

section \<open>Valve exclusion\<close>

text \<open>
  C6. In every state reachable from \<open>setupMain\<close> by passes of \<open>loop\<close>, with any inputs
  (clock, key matrix, armed signal), the inlet valve and the drain valve are never both
  open, and the two valve outputs are the function of the current stage that the table of
  section 4.4 gives.
\<close>

theorem reachable_valves_exclusive:
  assumes "reachable s"
  shows "\<not> (inletOn s \<and> drainOn s) \<and>
         inletOn s = fst (stageTable (currentState s)) \<and>
         drainOn s = fst (snd (stageTable (currentState s)))"
proof -
  from assms have "valvesOK s" by (rule reachable_valvesOK)
  then show ?thesis by (cases "currentState s") (simp_all add: valvesOK_def)
qed

theorem reachable_valves_exclusive_witness:
  "reachable (run (setupMain 0 0) [tickAt True 1000 True, tickAt True 1200 True]) \<and>
   currentState (run (setupMain 0 0) [tickAt True 1000 True, tickAt True 1200 True]) = FILLING \<and>
   inletOn (run (setupMain 0 0) [tickAt True 1000 True, tickAt True 1200 True]) \<and>
   \<not> drainOn (run (setupMain 0 0) [tickAt True 1000 True, tickAt True 1200 True])"
proof -
  let ?s = "run (setupMain 0 0) [tickAt True 1000 True, tickAt True 1200 True]"
  have r: "reachable ?s"
    by (simp add: reachable.boot reachable.pass)
  have c: "currentState ?s = FILLING"
    by (simp add: eval_defs pin_defs)
  from reachable_valves_exclusive [OF r] c r show ?thesis by simp
qed

section \<open>Stage timeouts\<close>

text \<open>
  C3, as the code has it. In a stage with a time budget, on a pass that reaches the
  \<^verbatim>\<open>switch\<close> with no start/cancel event pending, the pass ends in the successor stage
  exactly when \<open>nowMs - stateStartMs\<close> (modulo \<open>2^32\<close>) is at least the budget, the bound
  included, and the entry time becomes the time of the pass; below the budget the stage and
  its entry time stay. With an event pending the pass ends in \<open>IDLE\<close> whatever the elapsed
  time is. For \<open>FINISHED\<close> that is its successor: a start event returns it to \<open>IDLE\<close> before
  its budget has elapsed.
\<close>

theorem stage_timeout_inclusive:
  assumes "currentState s = st" and "st \<noteq> IDLE" and "\<not> safeScreenShown s"
  shows "(\<not> startPressedEvent (washerScan i s) \<longrightarrow>
            currentState (washerLoop i s) =
              (if budget st \<le> nowMs i - stateStartMs s then successor st else st) \<and>
            stateStartMs (washerLoop i s) =
              (if budget st \<le> nowMs i - stateStartMs s then nowMs i else stateStartMs s)) \<and>
         (startPressedEvent (washerScan i s) \<longrightarrow> currentState (washerLoop i s) = IDLE)"
proof -
  from assms have c: "currentState (washerScan i s) = st"
    and t: "stateStartMs (washerScan i s) = stateStartMs s"
    by simp_all
  from c assms(2) have ne: "currentState (washerScan i s) \<noteq> IDLE" by simp
  have quiet: "\<not> startPressedEvent (washerScan i s) \<longrightarrow>
            currentState (washerLoop i s) =
              (if budget st \<le> nowMs i - stateStartMs s then successor st else st) \<and>
            stateStartMs (washerLoop i s) =
              (if budget st \<le> nowMs i - stateStartMs s then nowMs i else stateStartMs s)"
  proof
    assume e: "\<not> startPressedEvent (washerScan i s)"
    from dispatch_no_event [OF ne e, of "nowMs i" "nowUs i"]
    show "currentState (washerLoop i s) =
              (if budget st \<le> nowMs i - stateStartMs s then successor st else st) \<and>
            stateStartMs (washerLoop i s) =
              (if budget st \<le> nowMs i - stateStartMs s then nowMs i else stateStartMs s)"
      unfolding washerLoop_def c t by (rule conjI)
  qed
  have pressed: "startPressedEvent (washerScan i s) \<longrightarrow> currentState (washerLoop i s) = IDLE"
  proof
    assume e: "startPressedEvent (washerScan i s)"
    from dispatch_event(1) [OF e, of "nowMs i" "nowUs i"] ne
    show "currentState (washerLoop i s) = IDLE"
      unfolding washerLoop_def by simp
  qed
  from quiet pressed show ?thesis by (rule conjI)
qed

theorem stage_timeout_inclusive_witness:
  "currentState (run (setupMain 0 0) [tickAt True 1000 True, tickAt True 1200 True]) = FILLING \<and>
   stateStartMs (run (setupMain 0 0) [tickAt True 1000 True, tickAt True 1200 True]) = 1200 \<and>
   \<not> safeScreenShown (run (setupMain 0 0) [tickAt True 1000 True, tickAt True 1200 True]) \<and>
   \<not> startPressedEvent (washerScan (tickAt True 6199 False)
        (run (setupMain 0 0) [tickAt True 1000 True, tickAt True 1200 True])) \<and>
   currentState (washerLoop (tickAt True 6199 False)
        (run (setupMain 0 0) [tickAt True 1000 True, tickAt True 1200 True])) = FILLING \<and>
   \<not> startPressedEvent (washerScan (tickAt True 6200 False)
        (run (setupMain 0 0) [tickAt True 1000 True, tickAt True 1200 True])) \<and>
   currentState (washerLoop (tickAt True 6200 False)
        (run (setupMain 0 0) [tickAt True 1000 True, tickAt True 1200 True])) = WASHING \<and>
   stateStartMs (washerLoop (tickAt True 6200 False)
        (run (setupMain 0 0) [tickAt True 1000 True, tickAt True 1200 True])) = 6200 \<and>
   currentState (run (setupMain 0 0) [tickAt True 1000 True, tickAt True 1200 True,
        tickAt True 1300 False, tickAt True 1500 False, tickAt True 1600 True]) = FILLING \<and>
   startPressedEvent (washerScan (tickAt True 1800 True)
        (run (setupMain 0 0) [tickAt True 1000 True, tickAt True 1200 True,
           tickAt True 1300 False, tickAt True 1500 False, tickAt True 1600 True])) \<and>
   currentState (washerLoop (tickAt True 1800 True)
        (run (setupMain 0 0) [tickAt True 1000 True, tickAt True 1200 True,
           tickAt True 1300 False, tickAt True 1500 False, tickAt True 1600 True])) = IDLE"
proof -
  let ?s = "run (setupMain 0 0) [tickAt True 1000 True, tickAt True 1200 True]"
  have c: "currentState ?s = FILLING" and t: "stateStartMs ?s = 1200"
    and n: "\<not> safeScreenShown ?s"
    by (simp_all add: eval_defs pin_defs)
  have e1: "\<not> startPressedEvent (washerScan (tickAt True 6199 False) ?s)"
    and e2: "\<not> startPressedEvent (washerScan (tickAt True 6200 False) ?s)"
    by (simp_all add: eval_defs pin_defs)
  have m: "nowMs (tickAt True 6199 False) = 6199" "nowMs (tickAt True 6200 False) = 6200"
    by (simp_all add: tickAt_def)
  from stage_timeout_inclusive [OF c _ n, of "tickAt True 6199 False"] e1
  have a: "currentState (washerLoop (tickAt True 6199 False) ?s) = FILLING"
    by (simp add: m t FILL_MS_def del: run.simps)
  from stage_timeout_inclusive [OF c _ n, of "tickAt True 6200 False"] e2
  have b: "currentState (washerLoop (tickAt True 6200 False) ?s) = WASHING"
    "stateStartMs (washerLoop (tickAt True 6200 False) ?s) = 6200"
    by (simp_all add: m t FILL_MS_def del: run.simps)
  let ?p = "run (setupMain 0 0) [tickAt True 1000 True, tickAt True 1200 True,
           tickAt True 1300 False, tickAt True 1500 False, tickAt True 1600 True]"
  have pc: "currentState ?p = FILLING" and pn: "\<not> safeScreenShown ?p"
    and pe: "startPressedEvent (washerScan (tickAt True 1800 True) ?p)"
    by (simp_all add: eval_defs pin_defs)
  from stage_timeout_inclusive [OF pc _ pn, of "tickAt True 1800 True"] pe
  have d: "currentState (washerLoop (tickAt True 1800 True) ?p) = IDLE"
    by (simp del: run.simps)
  from c t n e1 e2 a b pc pe d show ?thesis by (simp del: run.simps)
qed

text \<open>
  The claim as written fails for \<open>FINISHED\<close>: a whole cycle is run, \<open>FINISHED\<close> is entered
  at 35200 ms, the start key is pressed, and the pass at 35500 ms, 300 ms into a budget of
  4000 ms, ends in \<open>IDLE\<close>, the successor of \<open>FINISHED\<close>.
\<close>

theorem finished_leaves_before_budget:
  "currentState (run (setupMain 0 0)
      [tickAt True 1000 True, tickAt True 1200 True, tickAt True 6200 False,
       tickAt True 18200 False, tickAt True 25200 False, tickAt True 30200 False,
       tickAt True 35200 False, tickAt True 35300 True]) = FINISHED \<and>
   stateStartMs (run (setupMain 0 0)
      [tickAt True 1000 True, tickAt True 1200 True, tickAt True 6200 False,
       tickAt True 18200 False, tickAt True 25200 False, tickAt True 30200 False,
       tickAt True 35200 False, tickAt True 35300 True]) = 35200 \<and>
   nowMs (tickAt True 35500 True) - 35200 < budget FINISHED \<and>
   currentState (loop (tickAt True 35500 True) (run (setupMain 0 0)
      [tickAt True 1000 True, tickAt True 1200 True, tickAt True 6200 False,
       tickAt True 18200 False, tickAt True 25200 False, tickAt True 30200 False,
       tickAt True 35200 False, tickAt True 35300 True])) = successor FINISHED"
  by (simp add: eval_defs pin_defs)

section \<open>Clock wrap-around\<close>

text \<open>
  C9. The three elapsed-time comparisons are made on \<open>now - start\<close> in 32-bit unsigned
  arithmetic. Let \<open>d\<close> be the true time since the start stamp, less than \<open>2^32\<close>, so
  that the clock reads \<open>start + d\<close> modulo \<open>2^32\<close>, wrapped or not. Then the stage budget
  is compared with \<open>d\<close> itself (a pass with no pending event changes stage exactly when
  the budget is at most \<open>d\<close>), the stepper steps exactly when its interval is at most
  \<open>d\<close>, the wash direction flips exactly when the sub-phase length is at most \<open>d\<close>,
  and \<open>now - start\<close> read as a number is \<open>d\<close>.
\<close>

theorem elapsed_modular_true_duration:
  assumes "d < 2 ^ 32"
  shows "(currentState s = st \<and> st \<noteq> IDLE \<and> \<not> safeScreenShown s \<and>
          \<not> startPressedEvent (washerScan i s) \<and> nowMs i = stateStartMs s + of_nat d \<longrightarrow>
            currentState (washerLoop i s) = (if unat (budget st) \<le> d then successor st else st)) \<and>
         (stepperMode s \<noteq> STEPPER_STOP \<and> us = lastStepUs s + of_nat d \<longrightarrow>
            updateStepper us s = (if unat (stepIntervalUs s) \<le> d then stepAdvance us s else s)) \<and>
         (currentState s = WASHING \<and> \<not> safeScreenShown s \<and>
          nowMs i = washPhaseStartMs s + of_nat d \<longrightarrow>
            washForward (washerLoop i s) =
              (if unat WASH_FORWARD_MS \<le> d then \<not> washForward s else washForward s)) \<and>
         (nowMs i = stateStartMs s + of_nat d \<longrightarrow> unat (nowMs i - stateStartMs s) = d)"
proof -
  have stage: "currentState s = st \<and> st \<noteq> IDLE \<and> \<not> safeScreenShown s \<and>
          \<not> startPressedEvent (washerScan i s) \<and> nowMs i = stateStartMs s + of_nat d \<longrightarrow>
            currentState (washerLoop i s) = (if unat (budget st) \<le> d then successor st else st)"
  proof (intro impI, elim conjE)
    assume h: "currentState s = st" "st \<noteq> IDLE" "\<not> safeScreenShown s"
      "\<not> startPressedEvent (washerScan i s)" "nowMs i = stateStartMs s + of_nat d"
    from h have c: "currentState (washerScan i s) = st"
      and t: "stateStartMs (washerScan i s) = stateStartMs s" by simp_all
    from c h(2) have ne: "currentState (washerScan i s) \<noteq> IDLE" by simp
    from dispatch_no_event(1) [OF ne h(4), of "nowMs i" "nowUs i"]
    show "currentState (washerLoop i s) = (if unat (budget st) \<le> d then successor st else st)"
      unfolding washerLoop_def c t h(5) elapsed_ge [OF assms] .
  qed
  have stepper: "stepperMode s \<noteq> STEPPER_STOP \<and> us = lastStepUs s + of_nat d \<longrightarrow>
            updateStepper us s = (if unat (stepIntervalUs s) \<le> d then stepAdvance us s else s)"
  proof (intro impI, elim conjE)
    assume m: "stepperMode s \<noteq> STEPPER_STOP" and u: "us = lastStepUs s + of_nat d"
    have "(stepIntervalUs s \<le> us - lastStepUs s) = (unat (stepIntervalUs s) \<le> d)"
      unfolding u by (rule elapsed_ge [OF assms])
    then have k: "(us - lastStepUs s < stepIntervalUs s) = (\<not> unat (stepIntervalUs s) \<le> d)"
      unfolding not_le [symmetric] by (rule arg_cong)
    show "updateStepper us s = (if unat (stepIntervalUs s) \<le> d then stepAdvance us s else s)"
      by (simp add: updateStepper_def m k)
  qed
  have wash: "currentState s = WASHING \<and> \<not> safeScreenShown s \<and>
          nowMs i = washPhaseStartMs s + of_nat d \<longrightarrow>
            washForward (washerLoop i s) =
              (if unat WASH_FORWARD_MS \<le> d then \<not> washForward s else washForward s)"
  proof (intro impI, elim conjE)
    assume h: "currentState s = WASHING" "\<not> safeScreenShown s"
      "nowMs i = washPhaseStartMs s + of_nat d"
    from h have c: "currentState (washerScan i s) = WASHING" by simp
    have k: "(WASH_FORWARD_MS \<le> nowMs i - washPhaseStartMs s) = (unat WASH_FORWARD_MS \<le> d)"
      unfolding h(3) by (rule elapsed_ge [OF assms])
    from dispatch_wash_phase [OF c, of "nowMs i" "nowUs i"] h(2)
    show "washForward (washerLoop i s) =
              (if unat WASH_FORWARD_MS \<le> d then \<not> washForward s else washForward s)"
      unfolding washerLoop_def by (simp add: k)
  qed
  have arith: "nowMs i = stateStartMs s + of_nat d \<longrightarrow> unat (nowMs i - stateStartMs s) = d"
  proof
    assume h: "nowMs i = stateStartMs s + of_nat d"
    show "unat (nowMs i - stateStartMs s) = d"
      unfolding h by (rule elapsed_true [OF assms])
  qed
  from stage stepper wash arith show ?thesis by (intro conjI)
qed

theorem elapsed_modular_true_duration_witness:
  "(5000::nat) < 2 ^ 32 \<and>
   currentState (run (setupMain 0 0) [tickAt True 4294966840 True, tickAt True 4294967040 True])
     = FILLING \<and>
   stateStartMs (run (setupMain 0 0) [tickAt True 4294966840 True, tickAt True 4294967040 True])
     = 4294967040 \<and>
   nowMs (tickAt True 4744 False) = 4294967040 + of_nat 5000 \<and>
   currentState (washerLoop (tickAt True 4744 False)
     (run (setupMain 0 0) [tickAt True 4294966840 True, tickAt True 4294967040 True])) = WASHING \<and>
   unat (nowMs (tickAt True 4744 False) - stateStartMs
     (run (setupMain 0 0) [tickAt True 4294966840 True, tickAt True 4294967040 True])) = 5000 \<and>
   updateStepper 904 (stepperRun STEPPER_CW 4294967000 powerOn)
     = stepAdvance 904 (stepperRun STEPPER_CW 4294967000 powerOn) \<and>
   washForward (enterState WASHING 4294966000 0 powerOn) \<and>
   \<not> washForward (washerLoop (tickAt True 1704 False) (enterState WASHING 4294966000 0 powerOn))"
proof -
  let ?s = "run (setupMain 0 0) [tickAt True 4294966840 True, tickAt True 4294967040 True]"
  let ?i = "tickAt True 4744 False"
  let ?r = "stepperRun STEPPER_CW 4294967000 powerOn"
  let ?w = "enterState WASHING 4294966000 0 powerOn"
  let ?j = "tickAt True 1704 False"
  have d: "(5000::nat) < 2 ^ 32" "(1200::nat) < 2 ^ 32" "(3000::nat) < 2 ^ 32" by simp_all
  have c: "currentState ?s = FILLING" and t: "stateStartMs ?s = 4294967040"
    and n: "\<not> safeScreenShown ?s" and e: "\<not> startPressedEvent (washerScan ?i ?s)"
    by (simp_all add: eval_defs pin_defs)
  have m: "nowMs ?i = 4294967040 + of_nat 5000" "nowMs ?j = 4294966000 + of_nat 3000"
    by (simp_all add: tickAt_def)
  from elapsed_modular_true_duration [OF d(1), of ?s FILLING ?i] c t n e m(1)
  have a: "currentState (washerLoop ?i ?s) = WASHING"
    "unat (nowMs ?i - stateStartMs ?s) = 5000"
    by (simp_all add: FILL_MS_def del: run.simps)
  have r: "stepperMode ?r \<noteq> STEPPER_STOP" "lastStepUs ?r = 4294967000"
    "stepIntervalUs ?r = 1200"
    by (simp_all add: stepperRun_def powerOn_def)
  from elapsed_modular_true_duration [OF d(2), of ?r _ _ 904] r
  have b: "updateStepper 904 ?r = stepAdvance 904 ?r" by simp
  have w: "currentState ?w = WASHING" "\<not> safeScreenShown ?w" "washPhaseStartMs ?w = 4294966000"
    "washForward ?w"
    by (simp_all add: enterState_def Let_def out_defs powerOn_def)
  from elapsed_modular_true_duration [OF d(3), of ?w _ ?j] w m(2)
  have g: "\<not> washForward (washerLoop ?j ?w)"
    by (simp add: WASH_FORWARD_MS_def)
  from d(1) c t m(1) a b w(4) g show ?thesis by (simp del: run.simps)
qed

section \<open>Timeout and cancel in the same pass\<close>

text \<open>
  C10. In a running stage (\<open>FILLING\<close>, \<open>WASHING\<close>, \<open>RINSING\<close>, \<open>SPINNING\<close>,
  \<open>DRAINING\<close>), on a pass where the budget has elapsed and a start/cancel event is
  pending at the \<^verbatim>\<open>switch\<close>, the timeout branch runs first and the cancel branch second.
  The result of the pass is \<open>enterState IDLE\<close> applied, with the event cleared, to the
  result of \<open>enterState\<close> of the next stage, which in turn is applied to the state the
  timeout branch of that stage has made: the display refresh of the stage followed by its
  exit action (inlet relay off for \<open>FILLING\<close>, stepper stop for \<open>WASHING\<close>, nothing for
  \<open>RINSING\<close>, interval back to 1200 and stepper stop for \<open>SPINNING\<close>, drain relay off
  for \<open>DRAINING\<close>). The pass ends in \<open>IDLE\<close>, entered at the time of the pass, with no
  event pending, both valves off and the stepper stopped; the step interval it leaves is
  the one the timeout branch and the entry of the next stage have set.
\<close>

theorem timeout_then_cancel_same_tick:
  assumes "currentState s = st" and "st \<noteq> IDLE" and "st \<noteq> FINISHED"
    and "\<not> safeScreenShown s" and "startPressedEvent (washerScan i s)"
    and "budget st \<le> nowMs i - stateStartMs s"
  shows "washerLoop i s =
           enterState IDLE (nowMs i) (nowUs i)
             ((enterState (successor st) (nowMs i) (nowUs i)
                (case st of
                   FILLING \<Rightarrow>
                     relayOff RELAY_INLET
                       (lcdWrite4 (nowMs i) ''Cycle Running...'' ''FILLING water'' ''Inlet: ON''
                          ''State: FILLING'' (washerScan i s))
                 | WASHING \<Rightarrow>
                     stepperStop
                       (lcdWrite4 (nowMs i) ''Cycle Running...'' ''WASHING (drum)''
                          (if washForward (washAgitate (nowMs i) (nowUs i) (washerScan i s))
                           then ''Direction: FWD'' else ''Direction: REV'')
                          ''State: WASHING'' (washAgitate (nowMs i) (nowUs i) (washerScan i s)))
                 | RINSING \<Rightarrow>
                     lcdWrite4 (nowMs i) ''Cycle Running...'' ''RINSING'' ''Drum: slow''
                       ''State: RINSING'' (washerScan i s)
                 | SPINNING \<Rightarrow>
                     stepperStop
                       ((lcdWrite4 (nowMs i) ''Cycle Running...'' ''SPINNING'' ''Drum: fast''
                           ''State: SPINNING'' (washerScan i s))\<lparr>stepIntervalUs := 1200\<rparr>)
                 | DRAINING \<Rightarrow>
                     relayOff RELAY_DRAIN
                       (lcdWrite4 (nowMs i) ''Cycle Running...'' ''DRAINING water'' ''Drain: ON''
                          ''State: DRAINING'' (washerScan i s))
                 | IDLE \<Rightarrow> washerScan i s
                 | FINISHED \<Rightarrow> washerScan i s))\<lparr>startPressedEvent := False\<rparr>) \<and>
         (\<exists>s1. washerLoop i s =
            enterState IDLE (nowMs i) (nowUs i)
              ((enterState (successor st) (nowMs i) (nowUs i) s1)\<lparr>startPressedEvent := False\<rparr>)) \<and>
         currentState (washerLoop i s) = IDLE \<and>
         stateStartMs (washerLoop i s) = nowMs i \<and>
         \<not> startPressedEvent (washerLoop i s) \<and>
         \<not> inletOn (washerLoop i s) \<and> \<not> drainOn (washerLoop i s) \<and>
         stepperMode (washerLoop i s) = STEPPER_STOP \<and>
         stepIntervalUs (washerLoop i s) =
           (case st of FILLING \<Rightarrow> 1200 | WASHING \<Rightarrow> 1400 | RINSING \<Rightarrow> 800
            | SPINNING \<Rightarrow> 1200 | DRAINING \<Rightarrow> stepIntervalUs s
            | IDLE \<Rightarrow> stepIntervalUs s | FINISHED \<Rightarrow> stepIntervalUs s)"
proof -
  let ?m = "washerScan i s"
  let ?pre = "case st of
                   FILLING \<Rightarrow>
                     relayOff RELAY_INLET
                       (lcdWrite4 (nowMs i) ''Cycle Running...'' ''FILLING water'' ''Inlet: ON''
                          ''State: FILLING'' (washerScan i s))
                 | WASHING \<Rightarrow>
                     stepperStop
                       (lcdWrite4 (nowMs i) ''Cycle Running...'' ''WASHING (drum)''
                          (if washForward (washAgitate (nowMs i) (nowUs i) (washerScan i s))
                           then ''Direction: FWD'' else ''Direction: REV'')
                          ''State: WASHING'' (washAgitate (nowMs i) (nowUs i) (washerScan i s)))
                 | RINSING \<Rightarrow>
                     lcdWrite4 (nowMs i) ''Cycle Running...'' ''RINSING'' ''Drum: slow''
                       ''State: RINSING'' (washerScan i s)
                 | SPINNING \<Rightarrow>
                     stepperStop
                       ((lcdWrite4 (nowMs i) ''Cycle Running...'' ''SPINNING'' ''Drum: fast''
                           ''State: SPINNING'' (washerScan i s))\<lparr>stepIntervalUs := 1200\<rparr>)
                 | DRAINING \<Rightarrow>
                     relayOff RELAY_DRAIN
                       (lcdWrite4 (nowMs i) ''Cycle Running...'' ''DRAINING water'' ''Drain: ON''
                          ''State: DRAINING'' (washerScan i s))
                 | IDLE \<Rightarrow> washerScan i s
                 | FINISHED \<Rightarrow> washerScan i s"
  from assms have c: "currentState ?m = st"
    and t: "stateStartMs ?m = stateStartMs s"
    and v: "stepIntervalUs ?m = stepIntervalUs s" by simp_all
  from assms(6) t have b: "budget st \<le> nowMs i - stateStartMs ?m" by simp
  note q = dispatch_event_timeout_eq [OF assms(5), of "nowMs i" "nowUs i"]
  have eq: "washerLoop i s =
      enterState IDLE (nowMs i) (nowUs i)
        ((enterState (successor st) (nowMs i) (nowUs i) ?pre)\<lparr>startPressedEvent := False\<rparr>)"
  proof (cases st)
    case FILLING
    with c b q(1) show ?thesis by (simp add: washerLoop_def)
  next
    case WASHING
    with c b q(2) show ?thesis by (simp add: washerLoop_def)
  next
    case RINSING
    with c b q(3) show ?thesis by (simp add: washerLoop_def)
  next
    case SPINNING
    with c b q(4) show ?thesis by (simp add: washerLoop_def)
  next
    case DRAINING
    with c b q(5) show ?thesis by (simp add: washerLoop_def)
  qed (use assms(2,3) in simp_all)
  then have ex: "\<exists>s1. washerLoop i s =
            enterState IDLE (nowMs i) (nowUs i)
              ((enterState (successor st) (nowMs i) (nowUs i) s1)\<lparr>startPressedEvent := False\<rparr>)"
    by (rule exI)
  have obs: "currentState (washerLoop i s) = IDLE" "stateStartMs (washerLoop i s) = nowMs i"
    "\<not> startPressedEvent (washerLoop i s)" "\<not> inletOn (washerLoop i s)"
    "\<not> drainOn (washerLoop i s)" "stepperMode (washerLoop i s) = STEPPER_STOP"
    unfolding eq by simp_all
  have iv: "stepIntervalUs (washerLoop i s) =
           (case st of FILLING \<Rightarrow> 1200 | WASHING \<Rightarrow> 1400 | RINSING \<Rightarrow> 800
            | SPINNING \<Rightarrow> 1200 | DRAINING \<Rightarrow> stepIntervalUs s
            | IDLE \<Rightarrow> stepIntervalUs s | FINISHED \<Rightarrow> stepIntervalUs s)"
    unfolding eq using v assms(2,3) by (cases st) (simp_all add: out_defs)
  from eq ex obs iv show ?thesis by (intro conjI)
qed

theorem timeout_then_cancel_same_tick_witness:
  "currentState (run (setupMain 0 0) [tickAt True 1000 True, tickAt True 1200 True,
      tickAt True 6200 False, tickAt True 18200 False, tickAt True 25200 False,
      tickAt True 25300 True]) = SPINNING \<and>
   stepIntervalUs (run (setupMain 0 0) [tickAt True 1000 True, tickAt True 1200 True,
      tickAt True 6200 False, tickAt True 18200 False, tickAt True 25200 False,
      tickAt True 25300 True]) = 800 \<and>
   startPressedEvent (washerScan (tickAt True 30200 True)
     (run (setupMain 0 0) [tickAt True 1000 True, tickAt True 1200 True,
      tickAt True 6200 False, tickAt True 18200 False, tickAt True 25200 False,
      tickAt True 25300 True])) \<and>
   budget SPINNING \<le> nowMs (tickAt True 30200 True) - stateStartMs
     (run (setupMain 0 0) [tickAt True 1000 True, tickAt True 1200 True,
      tickAt True 6200 False, tickAt True 18200 False, tickAt True 25200 False,
      tickAt True 25300 True]) \<and>
   washerLoop (tickAt True 30200 True)
     (run (setupMain 0 0) [tickAt True 1000 True, tickAt True 1200 True,
      tickAt True 6200 False, tickAt True 18200 False, tickAt True 25200 False,
      tickAt True 25300 True]) =
     enterState IDLE 30200 30200000
       ((enterState DRAINING 30200 30200000
          (stepperStop
            ((lcdWrite4 30200 ''Cycle Running...'' ''SPINNING'' ''Drum: fast''
                ''State: SPINNING''
                (washerScan (tickAt True 30200 True)
                  (run (setupMain 0 0) [tickAt True 1000 True, tickAt True 1200 True,
                     tickAt True 6200 False, tickAt True 18200 False, tickAt True 25200 False,
                     tickAt True 25300 True])))\<lparr>stepIntervalUs := 1200\<rparr>)))
        \<lparr>startPressedEvent := False\<rparr>) \<and>
   currentState (washerLoop (tickAt True 30200 True)
     (run (setupMain 0 0) [tickAt True 1000 True, tickAt True 1200 True,
      tickAt True 6200 False, tickAt True 18200 False, tickAt True 25200 False,
      tickAt True 25300 True])) = IDLE \<and>
   \<not> drainOn (washerLoop (tickAt True 30200 True)
     (run (setupMain 0 0) [tickAt True 1000 True, tickAt True 1200 True,
      tickAt True 6200 False, tickAt True 18200 False, tickAt True 25200 False,
      tickAt True 25300 True])) \<and>
   stepIntervalUs (washerLoop (tickAt True 30200 True)
     (run (setupMain 0 0) [tickAt True 1000 True, tickAt True 1200 True,
      tickAt True 6200 False, tickAt True 18200 False, tickAt True 25200 False,
      tickAt True 25300 True])) = 1200"
proof -
  let ?s = "run (setupMain 0 0) [tickAt True 1000 True, tickAt True 1200 True,
      tickAt True 6200 False, tickAt True 18200 False, tickAt True 25200 False,
      tickAt True 25300 True]"
  let ?i = "tickAt True 30200 True"
  have c: "currentState ?s = SPINNING" and n: "\<not> safeScreenShown ?s"
    and v: "stepIntervalUs ?s = 800"
    and e: "startPressedEvent (washerScan ?i ?s)"
    and b: "budget SPINNING \<le> nowMs ?i - stateStartMs ?s"
    by (simp_all add: eval_defs pin_defs)
  have m: "nowMs ?i = 30200" "nowUs ?i = 30200000" by (simp_all add: tickAt_def)
  from timeout_then_cancel_same_tick [OF c _ _ n e b] c v e b
  show ?thesis by (simp add: m out_defs del: run.simps)
qed

section \<open>The start button\<close>

text \<open>
  C2, as the code has it. Start from a detector at rest (last raw level released,
  debounced level released, no event pending) and let the key be sampled pressed by a
  run of armed passes, the first at time \<open>t0\<close>. If one of the later passes comes more
  than 150 ms after \<open>t0\<close> (\<open>nowMs - t0 > DEBOUNCE_MS\<close> modulo \<open>2^32\<close>), then exactly one
  event is produced and exactly one is consumed in the run, however many passes follow
  while the key stays down; otherwise none is. No event is left pending after the run.
\<close>

theorem press_held_one_event:
  assumes "\<not> prevStartRaw s" and "\<not> stablePressed s" and "\<not> startPressedEvent s"
    and "armed i0" and "startKey i0" and "list_all (\<lambda>i. armed i \<and> startKey i) is"
  shows "eventsProduced s (i0 # is) =
           (if list_ex (\<lambda>i. DEBOUNCE_MS < nowMs i - nowMs i0) is then 1 else 0) \<and>
         eventsConsumed s (i0 # is) =
           (if list_ex (\<lambda>i. DEBOUNCE_MS < nowMs i - nowMs i0) is then 1 else 0) \<and>
         \<not> startPressedEvent (run s (i0 # is))"
proof -
  from assms have p: "prevStartRaw (loop i0 s)" "\<not> startPressedEvent (loop i0 s)"
    and q: "lastStartChangeMs (loop i0 s) = nowMs i0" "\<not> stablePressed (loop i0 s)"
    by (simp_all add: loop_button)
  from assms have first: "\<not> producesEvent i0 s" "\<not> consumesEvent i0 s"
    by (simp_all add: producesEvent_def consumesEvent_eq washerScan_button)
  from held_counts [OF p assms(6)] q first run_no_event [OF assms(3), of "i0 # is"]
  show ?thesis by (simp add: eventsProduced_def eventsConsumed_def)
qed

theorem press_held_one_event_witness:
  "\<not> prevStartRaw (setupMain 0 0) \<and> \<not> stablePressed (setupMain 0 0) \<and>
   \<not> startPressedEvent (setupMain 0 0) \<and>
   eventsProduced (setupMain 0 0)
     [tickAt True 2000 True, tickAt True 2100 True, tickAt True 2151 True,
      tickAt True 2300 True, tickAt True 9000 True] = 1 \<and>
   eventsConsumed (setupMain 0 0)
     [tickAt True 2000 True, tickAt True 2100 True, tickAt True 2151 True,
      tickAt True 2300 True, tickAt True 9000 True] = 1 \<and>
   eventsConsumed (setupMain 0 0) [tickAt True 2000 True, tickAt True 2100 True] = 0"
proof -
  have h: "\<not> prevStartRaw (setupMain 0 0)" "\<not> stablePressed (setupMain 0 0)"
    "\<not> startPressedEvent (setupMain 0 0)"
    by (simp_all add: setupMain_def setupWasher_def Let_def powerOn_def upt4 out_defs)
  have k: "armed (tickAt True 2000 True)" "startKey (tickAt True 2000 True)"
    by (simp_all add: tickAt_def startKey_def)
  have l: "list_all (\<lambda>i. armed i \<and> startKey i) [tickAt True 2100 True, tickAt True 2151 True,
      tickAt True 2300 True, tickAt True 9000 True]"
    "list_all (\<lambda>i. armed i \<and> startKey i) [tickAt True 2100 True]"
    by (simp_all add: tickAt_def startKey_def)
  from press_held_one_event [OF h k l(1)] press_held_one_event [OF h k l(2)] h
  show ?thesis by (simp add: tickAt_def DEBOUNCE_MS_def)
qed

text \<open>
  The claim as written fails at the boundary: the key is sampled released at 1999 ms,
  pressed at 2000, 2075 and 2150 ms, and released at 2151 ms. It was down for at least
  150 ms, and no event is produced or consumed: the comparison is strict.
\<close>

theorem press_held_150ms_no_event:
  "DEBOUNCE_MS \<le> nowMs (tickAt True 2150 True) - nowMs (tickAt True 2000 True) \<and>
   eventsProduced (setupMain 0 0)
     [tickAt True 1000 False, tickAt True 1999 False, tickAt True 2000 True,
      tickAt True 2075 True, tickAt True 2150 True, tickAt True 2151 False,
      tickAt True 2400 False] = 0 \<and>
   eventsConsumed (setupMain 0 0)
     [tickAt True 1000 False, tickAt True 1999 False, tickAt True 2000 True,
      tickAt True 2075 True, tickAt True 2150 True, tickAt True 2151 False,
      tickAt True 2400 False] = 0 \<and>
   currentState (run (setupMain 0 0)
     [tickAt True 1000 False, tickAt True 1999 False, tickAt True 2000 True,
      tickAt True 2075 True, tickAt True 2150 True, tickAt True 2151 False,
      tickAt True 2400 False]) = IDLE"
proof -
  have h: "\<not> prevStartRaw (setupMain 0 0)" "\<not> stablePressed (setupMain 0 0)"
    "\<not> startPressedEvent (setupMain 0 0)" "lastStartChangeMs (setupMain 0 0) = 0"
    by (simp_all add: setupMain_def setupWasher_def Let_def powerOn_def upt4 out_defs)
  have a: "DEBOUNCE_MS \<le> nowMs (tickAt True 2150 True) - nowMs (tickAt True 2000 True)"
    by (simp add: tickAt_def DEBOUNCE_MS_def)
  have b: "eventsProduced (setupMain 0 0)
     [tickAt True 1000 False, tickAt True 1999 False, tickAt True 2000 True,
      tickAt True 2075 True, tickAt True 2150 True, tickAt True 2151 False,
      tickAt True 2400 False] = 0"
    "eventsConsumed (setupMain 0 0)
     [tickAt True 1000 False, tickAt True 1999 False, tickAt True 2000 True,
      tickAt True 2075 True, tickAt True 2150 True, tickAt True 2151 False,
      tickAt True 2400 False] = 0"
    by (simp_all add: count_defs h tickAt_def DEBOUNCE_MS_def)
  have c: "currentState (run (setupMain 0 0)
     [tickAt True 1000 False, tickAt True 1999 False, tickAt True 2000 True,
      tickAt True 2075 True, tickAt True 2150 True, tickAt True 2151 False,
      tickAt True 2400 False]) = IDLE"
    by (simp add: eval_defs pin_defs)
  from a b c show ?thesis by (simp del: run.simps)
qed

text \<open>
  C8. The scan raises the pending flag only on a debounced rising edge: the key reads
  pressed, the debounced level goes from released to pressed, and the raw level has been
  unchanged for more than the debounce window. The \<^verbatim>\<open>switch\<close> never leaves the flag up,
  and a flag that is up causes exactly the one transition of the current stage (\<open>IDLE\<close> to
  \<open>FILLING\<close>, any other stage to \<open>IDLE\<close>). A scan that finds the flag already up leaves
  it up and records nothing more: a further press is dropped, not queued. Over any run
  that starts with no event pending, the events consumed are at most the debounced rising
  edges.
\<close>

theorem pending_event_one_shot:
  "(\<not> startPressedEvent s \<and> startPressedEvent (scanStartButton km ms s) \<longrightarrow>
      km START_COL START_ROW \<and> \<not> stablePressed s \<and>
      stablePressed (scanStartButton km ms s) \<and>
      DEBOUNCE_MS < ms - lastStartChangeMs (scanStartButton km ms s)) \<and>
   \<not> startPressedEvent (washerDispatch now us s) \<and>
   (startPressedEvent s \<longrightarrow>
      currentState (washerDispatch now us s) = (if currentState s = IDLE then FILLING else IDLE)) \<and>
   (startPressedEvent s \<longrightarrow>
      scanStartButton km ms s =
        (scanStartButton km ms (s\<lparr>startPressedEvent := False\<rparr>))\<lparr>startPressedEvent := True\<rparr>) \<and>
   (\<not> startPressedEvent s \<longrightarrow> eventsConsumed s is \<le> risingEdges s is)"
proof -
  have edge: "\<not> startPressedEvent s \<and> startPressedEvent (scanStartButton km ms s) \<longrightarrow>
      km START_COL START_ROW \<and> \<not> stablePressed s \<and>
      stablePressed (scanStartButton km ms s) \<and>
      DEBOUNCE_MS < ms - lastStartChangeMs (scanStartButton km ms s)"
    by (auto simp add: scanStartButton_debounce debounceStart_button pin_defs)
  have reader: "startPressedEvent s \<longrightarrow>
      currentState (washerDispatch now us s) = (if currentState s = IDLE then FILLING else IDLE)"
    by (simp add: dispatch_event(1))
  have dropped: "startPressedEvent s \<longrightarrow>
      scanStartButton km ms s =
        (scanStartButton km ms (s\<lparr>startPressedEvent := False\<rparr>))\<lparr>startPressedEvent := True\<rparr>"
    by (simp add: scanStartButton_def scanColumns_eq debounceStart_def Let_def)
  have bound: "\<not> startPressedEvent s \<longrightarrow> eventsConsumed s is \<le> risingEdges s is"
    by (simp add: eventsConsumed_def risingEdges_def consumed_le_edges)
  from edge reader dropped bound show ?thesis by simp
qed

theorem pending_event_one_shot_witness:
  "\<not> startPressedEvent (loop (tickAt True 2000 True) (setupMain 0 0)) \<and>
   startPressedEvent (scanStartButton (keys (tickAt True 2200 True)) 2200
     (loop (tickAt True 2000 True) (setupMain 0 0))) \<and>
   \<not> stablePressed (loop (tickAt True 2000 True) (setupMain 0 0)) \<and>
   stablePressed (scanStartButton (keys (tickAt True 2200 True)) 2200
     (loop (tickAt True 2000 True) (setupMain 0 0))) \<and>
   currentState (washerDispatch 2200 2200000
     (scanStartButton (keys (tickAt True 2200 True)) 2200
       (loop (tickAt True 2000 True) (setupMain 0 0)))) = FILLING \<and>
   startPressedEvent (scanStartButton (keys (tickAt True 2400 True)) 2400
     (scanStartButton (keys (tickAt True 2200 True)) 2200
       (loop (tickAt True 2000 True) (setupMain 0 0)))) \<and>
   eventsConsumed (setupMain 0 0) [tickAt True 2000 True, tickAt True 2200 True]
     \<le> risingEdges (setupMain 0 0) [tickAt True 2000 True, tickAt True 2200 True]"
proof -
  let ?a = "loop (tickAt True 2000 True) (setupMain 0 0)"
  let ?k = "keys (tickAt True 2200 True)"
  let ?b = "scanStartButton ?k 2200 ?a"
  have h: "\<not> prevStartRaw (setupMain 0 0)" "\<not> stablePressed (setupMain 0 0)"
    "\<not> startPressedEvent (setupMain 0 0)"
    by (simp_all add: setupMain_def setupWasher_def Let_def powerOn_def upt4 out_defs)
  have a: "\<not> startPressedEvent ?a" "prevStartRaw ?a" "lastStartChangeMs ?a = 2000"
    "\<not> stablePressed ?a" "currentState ?a = IDLE"
    by (simp_all add: eval_defs pin_defs)
  have b: "startPressedEvent ?b" "currentState ?b = IDLE"
    by (simp_all add: eval_defs pin_defs)
  from pending_event_one_shot [of ?a ?k 2200] a(1) b(1)
  have c: "stablePressed ?b" by simp
  from pending_event_one_shot [of ?b _ _ 2200 2200000] b
  have d: "currentState (washerDispatch 2200 2200000 ?b) = FILLING" by simp
  from pending_event_one_shot [of ?b "keys (tickAt True 2400 True)" 2400] b(1)
  have e: "startPressedEvent (scanStartButton (keys (tickAt True 2400 True)) 2400 ?b)"
    by (simp add: scanStartButton_debounce debounceStart_button)
  from pending_event_one_shot [of "setupMain 0 0" _ _ _ _
      "[tickAt True 2000 True, tickAt True 2200 True]"] h(3)
  have f: "eventsConsumed (setupMain 0 0) [tickAt True 2000 True, tickAt True 2200 True]
     \<le> risingEdges (setupMain 0 0) [tickAt True 2000 True, tickAt True 2200 True]"
    by simp
  from a(1,4) b(1) c d e f show ?thesis by simp
qed

section \<open>Re-arming\<close>

text \<open>
  C7, as the code has it. Take any state in which the start button detector is at rest
  (last raw level released, debounced level released, no event pending) and let a disarmed
  pass run in it. From then on, for every sequence of inputs, the stage, the pending-event
  flag, the two valve outputs and the stepper mode are at every pass the same as from a
  fresh \<open>setupMain\<close> given the same inputs; and if the stepper phase index is 0, as it is
  at startup, the four coil outputs are the same too. A disarmed pass resets the stage and
  the actuators; it does not reset the button detector or the phase index.
\<close>

theorem rearm_resumes_like_cold_start:
  assumes "\<not> armed i" and "\<not> prevStartRaw s" and "\<not> stablePressed s"
    and "\<not> startPressedEvent s"
  shows "currentState (run (loop i s) is) = currentState (run (setupMain ms us) is) \<and>
         startPressedEvent (run (loop i s) is) = startPressedEvent (run (setupMain ms us) is) \<and>
         inletOn (run (loop i s) is) = inletOn (run (setupMain ms us) is) \<and>
         drainOn (run (loop i s) is) = drainOn (run (setupMain ms us) is) \<and>
         stepperMode (run (loop i s) is) = stepperMode (run (setupMain ms us) is) \<and>
         (stepIndex s = 0 \<longrightarrow> coils (run (loop i s) is) = coils (run (setupMain ms us) is))"
proof -
  let ?c = "setupWasher ms us powerOn"
  let ?x = "run (loop i s) is" and ?y = "run (setupMain ms us) is"
  from assms(2-4) have bt: "buttonAlike s ?c"
    by (simp add: buttonAlike_def setupWasher_button)
  have r: "resumeAlike (washerSafeStop s) (washerSafeStop ?c)"
    by (rule resumeAlike_washerSafeStop [OF bt])
  have p: "phaseAlike (washerSafeStop s) (washerSafeStop ?c)" if "stepIndex s = 0"
    by (rule phaseAlike_washerSafeStop) (simp add: that setupWasher_button)
  from r p have "alike (stepIndex s = 0) (washerSafeStop s) (washerSafeStop ?c)"
    by (simp add: alike_def)
  from alike_run [OF this, of "is"] assms(1)
  have a: "alike (stepIndex s = 0) ?x ?y"
    by (simp add: loop_def setupMain_def)
  then have ra: "resumeAlike ?x ?y" and pa: "stepIndex s = 0 \<Longrightarrow> phaseAlike ?x ?y"
    by (simp_all add: alike_def)
  note v = stageViewD [OF resumeAlikeD(2) [OF ra]]
  note e = buttonAlikeD(3) [OF resumeAlikeD(3) [OF ra]]
  from pa have "stepIndex s = 0 \<longrightarrow> coils ?x = coils ?y" by (simp add: phaseAlike_def)
  with v e show ?thesis by simp
qed

theorem rearm_resumes_like_cold_start_witness:
  "\<not> armed (tickAt False 1600 False) \<and>
   \<not> prevStartRaw (run (setupMain 0 0) [tickAt True 1000 True, tickAt True 1200 True,
       tickAt True 1300 False, tickAt True 1500 False]) \<and>
   \<not> stablePressed (run (setupMain 0 0) [tickAt True 1000 True, tickAt True 1200 True,
       tickAt True 1300 False, tickAt True 1500 False]) \<and>
   \<not> startPressedEvent (run (setupMain 0 0) [tickAt True 1000 True, tickAt True 1200 True,
       tickAt True 1300 False, tickAt True 1500 False]) \<and>
   currentState (run (setupMain 0 0) [tickAt True 1000 True, tickAt True 1200 True,
       tickAt True 1300 False, tickAt True 1500 False]) = FILLING \<and>
   currentState (run (setupMain 0 0) [tickAt True 5000 True, tickAt True 5200 True]) = FILLING \<and>
   currentState (run (loop (tickAt False 1600 False)
       (run (setupMain 0 0) [tickAt True 1000 True, tickAt True 1200 True,
          tickAt True 1300 False, tickAt True 1500 False]))
     [tickAt True 5000 True, tickAt True 5200 True]) = FILLING \<and>
   inletOn (run (loop (tickAt False 1600 False)
       (run (setupMain 0 0) [tickAt True 1000 True, tickAt True 1200 True,
          tickAt True 1300 False, tickAt True 1500 False]))
     [tickAt True 5000 True, tickAt True 5200 True]) =
   inletOn (run (setupMain 0 0) [tickAt True 5000 True, tickAt True 5200 True]) \<and>
   stepIndex (run (setupMain 0 0) [tickAt True 1000 True, tickAt True 1200 True,
       tickAt True 1300 False, tickAt True 1500 False]) = 0 \<and>
   coils (run (loop (tickAt False 1600 False)
       (run (setupMain 0 0) [tickAt True 1000 True, tickAt True 1200 True,
          tickAt True 1300 False, tickAt True 1500 False]))
     [tickAt True 5000 True, tickAt True 5200 True]) =
   coils (run (setupMain 0 0) [tickAt True 5000 True, tickAt True 5200 True])"
proof -
  let ?s = "run (setupMain 0 0) [tickAt True 1000 True, tickAt True 1200 True,
       tickAt True 1300 False, tickAt True 1500 False]"
  let ?i = "tickAt False 1600 False"
  let ?p = "[tickAt True 5000 True, tickAt True 5200 True]"
  have h: "\<not> armed ?i" "\<not> prevStartRaw ?s" "\<not> stablePressed ?s" "\<not> startPressedEvent ?s"
    "currentState ?s = FILLING" "stepIndex ?s = 0"
    by (simp_all add: eval_defs pin_defs)
  have c: "currentState (run (setupMain 0 0) ?p) = FILLING"
    by (simp add: eval_defs pin_defs)
  from rearm_resumes_like_cold_start [OF h(1-4), of ?p 0 0] c h
  show ?thesis by (simp del: run.simps)
qed

text \<open>
  The claim as written fails: the key is held through a start and a disarm, so the
  debounced level is still pressed when the disarmed pass runs. After re-arming, with the
  key still down, the machine stays in \<open>IDLE\<close> with the inlet valve off, where a fresh
  startup given the same two passes is in \<open>FILLING\<close> with the inlet valve open.
\<close>

theorem rearm_differs_from_cold_start:
  "reachable (run (setupMain 0 0)
      [tickAt True 1000 True, tickAt True 1200 True, tickAt False 1300 True]) \<and>
   quiesced (run (setupMain 0 0)
      [tickAt True 1000 True, tickAt True 1200 True, tickAt False 1300 True]) \<and>
   currentState (run (run (setupMain 0 0)
      [tickAt True 1000 True, tickAt True 1200 True, tickAt False 1300 True])
      [tickAt True 5000 True, tickAt True 5200 True]) = IDLE \<and>
   \<not> inletOn (run (run (setupMain 0 0)
      [tickAt True 1000 True, tickAt True 1200 True, tickAt False 1300 True])
      [tickAt True 5000 True, tickAt True 5200 True]) \<and>
   currentState (run (setupMain 0 0) [tickAt True 5000 True, tickAt True 5200 True]) = FILLING \<and>
   inletOn (run (setupMain 0 0) [tickAt True 5000 True, tickAt True 5200 True])"
proof -
  have r: "reachable (run (setupMain 0 0)
      [tickAt True 1000 True, tickAt True 1200 True, tickAt False 1300 True])"
    by (simp add: reachable.boot reachable.pass)
  have q: "quiesced (run (setupMain 0 0)
      [tickAt True 1000 True, tickAt True 1200 True, tickAt False 1300 True])"
    by (simp add: loop_def tickAt_def washerSafeStop_quiesced)
  have a: "currentState (run (run (setupMain 0 0)
      [tickAt True 1000 True, tickAt True 1200 True, tickAt False 1300 True])
      [tickAt True 5000 True, tickAt True 5200 True]) = IDLE"
    "\<not> inletOn (run (run (setupMain 0 0)
      [tickAt True 1000 True, tickAt True 1200 True, tickAt False 1300 True])
      [tickAt True 5000 True, tickAt True 5200 True])"
    "currentState (run (setupMain 0 0) [tickAt True 5000 True, tickAt True 5200 True]) = FILLING"
    "inletOn (run (setupMain 0 0) [tickAt True 5000 True, tickAt True 5200 True])"
    by (simp_all add: eval_defs pin_defs obs_defs)
  from r q a show ?thesis by (simp del: run.simps)
qed

end
